theory Spec2Isabelle
  imports Complex_Main "HOL-Library.Word"
begin

unbundle bit_operations_syntax

section \<open>Data model of the virtual-console driver\<close>

text \<open>
  The driver keeps its consoles in an intrusive list \<^verbatim>\<open>g_vc_list\<close> of
  \<^verbatim>\<open>vc_device_t\<close> objects, with the globals \<^verbatim>\<open>g_vc_count\<close>,
  \<^verbatim>\<open>g_active_vc\<close> and \<^verbatim>\<open>g_active_vc_index\<close> beside it.
  A pointer to a console is an address; a nullable pointer is an \<open>option\<close>.
  The objects live in an explicit store, because the \<^verbatim>\<open>active\<close> flag of an
  object and the global active pointer are two places that the code keeps in step.
\<close>

type_synonym vc_ptr = nat

datatype mx_status = NO_ERROR | ERR_INVALID_ARGS | ERR_SHOULD_WAIT | ERR_NO_MEMORY | ERR_NOT_SUPPORTED

text \<open>What C leaves undefined: a read through a null pointer, and the use of the
  pseudo entry that \<^verbatim>\<open>list_for_every_entry\<close> leaves behind when it runs off the list.\<close>

datatype fault = NullDeref | WildPointer

text \<open>The two kinds of mutex of the driver: the registry lock \<^verbatim>\<open>g_vc_lock\<close> and the
  lock inside the FIFO of one console.\<close>

datatype lock_id = G_VC_LOCK | FIFO_LOCK vc_ptr

text \<open>Calls that leave this file are recorded in the order in which they are made,
  oldest first: the mutex calls, the FIFO calls of the HID library, the renderer, and the
  write to the device manager's control file.\<close>

datatype event =
    MtxLock lock_id
  | MtxUnlock lock_id
  | FifoRead vc_ptr nat
  | FifoWrite vc_ptr "8 word list"
  | Render vc_ptr
  | SetFullscreen vc_ptr bool
  | ScrollViewport "vc_ptr option" int
  | DmctlWrite string

text \<open>Modelled from the spec: the Per-VC FIFO \<^verbatim>\<open>mx_hid_fifo_t\<close> of the HID library,
  which is not among the sources: a fixed-capacity queue of bytes. \<open>content\<close> holds the queued
  bytes, oldest first.\<close>

record mx_hid_fifo_t =
  content :: "8 word list"
  capacity :: nat

record vc_device_t =
  active :: bool
  flags :: "32 word"
  fifo :: mx_hid_fifo_t
  readable :: bool
  keymap :: "8 word \<Rightarrow> bool \<Rightarrow> 8 word"
  rows :: int

record vc_state =
  g_vc_list :: "vc_ptr list"
  g_vc_count :: "32 word"
  g_active_vc :: "vc_ptr option"
  g_active_vc_index :: "32 word"
  heap :: "vc_ptr \<Rightarrow> vc_device_t"
  trace :: "event list"
  dmctl_opens :: bool

text \<open>Modelled from the spec: the flag bits of \<^verbatim>\<open>vc.h\<close>, which is not among the
  sources. The spec names the flags has-pending-input, reset-scroll and fullscreen; each
  is one bit of \<^verbatim>\<open>flags\<close>.\<close>

definition VC_FLAG_HASINPUT :: "32 word" where
  "VC_FLAG_HASINPUT = 1"

definition VC_FLAG_RESETSCROLL :: "32 word" where
  "VC_FLAG_RESETSCROLL = 2"

definition VC_FLAG_FULLSCREEN :: "32 word" where
  "VC_FLAG_FULLSCREEN = 4"

definition emit :: "event \<Rightarrow> vc_state \<Rightarrow> vc_state" where
  "emit e s = s\<lparr>trace := trace s @ [e]\<rparr>"

definition mtx_lock :: "lock_id \<Rightarrow> vc_state \<Rightarrow> vc_state" where
  "mtx_lock l s = emit (MtxLock l) s"

definition mtx_unlock :: "lock_id \<Rightarrow> vc_state \<Rightarrow> vc_state" where
  "mtx_unlock l s = emit (MtxUnlock l) s"

section \<open>The registry and the active console\<close>

text \<open>\<^verbatim>\<open>vc_device_render\<close> belongs to the renderer; here it is the event that it was called.\<close>

definition vc_device_render :: "vc_ptr \<Rightarrow> vc_state \<Rightarrow> vc_state" where
  "vc_device_render d s = emit (Render d) s"

text \<open>\<^verbatim>\<open>__vc_set_active(dev, index)\<close>: the assignments in the order of the source.\<close>

definition vc_set_active :: "vc_ptr \<Rightarrow> 32 word \<Rightarrow> vc_state \<Rightarrow> vc_state" where
  "vc_set_active dev index s =
     (let h0 = heap s;
          h1 = (case g_active_vc s of
                  None \<Rightarrow> h0
                | Some a \<Rightarrow> h0(a := (h0 a)\<lparr>active := False\<rparr>));
          h2 = h1(dev := (h1 dev)\<lparr>active := True\<rparr>);
          h3 = h2(dev := (h2 dev)\<lparr>flags := flags (h2 dev) AND NOT VC_FLAG_HASINPUT\<rparr>)
      in s\<lparr>heap := h3, g_active_vc := Some dev, g_active_vc_index := index\<rparr>)"

text \<open>The scan of \<^verbatim>\<open>vc_set_console_to_active\<close>: count entries until \<^verbatim>\<open>dev\<close> is met.\<close>

fun find_dev :: "vc_ptr list \<Rightarrow> vc_ptr \<Rightarrow> 32 word \<Rightarrow> 32 word" where
  "find_dev [] dev i = i"
| "find_dev (device # rest) dev i = (if device = dev then i else find_dev rest dev (i + 1))"

text \<open>\<^verbatim>\<open>vc_set_console_to_active\<close>. The render is of \<^verbatim>\<open>g_active_vc\<close>, which
  \<^verbatim>\<open>__vc_set_active\<close> has just set to \<^verbatim>\<open>dev\<close>.\<close>

definition vc_set_console_to_active :: "vc_ptr option \<Rightarrow> vc_state \<Rightarrow> mx_status \<times> vc_state" where
  "vc_set_console_to_active dev s =
     (case dev of
        None \<Rightarrow> (ERR_INVALID_ARGS, s)
      | Some d \<Rightarrow>
          (let s0 = mtx_lock G_VC_LOCK s;
               i = find_dev (g_vc_list s0) d 0
           in if i = g_vc_count s0 then (ERR_INVALID_ARGS, mtx_unlock G_VC_LOCK s0)
              else (let s1 = vc_set_active d i s0;
                        s2 = mtx_unlock G_VC_LOCK s1
                    in (NO_ERROR, vc_device_render d s2))))"

text \<open>The scan of \<^verbatim>\<open>vc_set_active_console\<close>: stop at the entry whose position is
  \<^verbatim>\<open>console\<close>. When the list ends first, the loop variable is no console at all.\<close>

fun entry_at :: "vc_ptr list \<Rightarrow> 32 word \<Rightarrow> 32 word \<Rightarrow> vc_ptr option" where
  "entry_at [] console i = None"
| "entry_at (device # rest) console i =
     (if i = console then Some device else entry_at rest console (i + 1))"

definition vc_set_active_console :: "32 word \<Rightarrow> vc_state \<Rightarrow> fault + mx_status \<times> vc_state" where
  "vc_set_active_console console s =
     (if console \<ge> g_vc_count s then Inr (ERR_INVALID_ARGS, s)
      else (let s0 = mtx_lock G_VC_LOCK s in
            case entry_at (g_vc_list s0) console 0 of
              None \<Rightarrow> Inl WildPointer
            | Some device \<Rightarrow>
                if Some device = g_active_vc s0 then Inr (NO_ERROR, mtx_unlock G_VC_LOCK s0)
                else (let s1 = vc_set_active device console s0;
                          s2 = mtx_unlock G_VC_LOCK s1
                      in Inr (NO_ERROR, vc_device_render device s2))))"

text \<open>Modelled from the spec: \<^verbatim>\<open>vc_device_alloc\<close> (in \<^verbatim>\<open>vc-device.c\<close>, not among
  the sources) creates the instance that console-open registers. A new instance is Inactive,
  has no flag set, an empty FIFO and no readability signal; what the spec does not fix
  (keymap, capacity, rows) is whatever the cell holds.\<close>

definition vc_device_alloc :: "vc_device_t \<Rightarrow> vc_device_t" where
  "vc_device_alloc cell =
     cell\<lparr>active := False, flags := 0, fifo := (fifo cell)\<lparr>content := []\<rparr>, readable := False\<rparr>"

text \<open>\<^verbatim>\<open>vc_root_open\<close>. \<open>alloc\<close> is what \<^verbatim>\<open>vc_device_alloc\<close> returns (a negative
  status, or the new object); \<open>add\<close> is the status of \<^verbatim>\<open>device_add_instance\<close>, and
  \<open>NO_ERROR\<close> when \<^verbatim>\<open>dev\<close> is null and the call is skipped.\<close>

definition vc_root_open ::
  "mx_status + vc_ptr \<Rightarrow> mx_status \<Rightarrow> vc_state \<Rightarrow> fault + mx_status \<times> vc_state" where
  "vc_root_open alloc add s =
     (case alloc of
        Inl status \<Rightarrow> Inr (status, s)
      | Inr device \<Rightarrow>
          (let s0 = s\<lparr>heap := (heap s)(device := vc_device_alloc (heap s device))\<rparr> in
           if add \<noteq> NO_ERROR then Inr (add, s0)
           else (let s1 = mtx_lock G_VC_LOCK s0;
                     s2 = s1\<lparr>g_vc_list := g_vc_list s1 @ [device],
                              g_vc_count := g_vc_count s1 + 1\<rparr>;
                     s3 = mtx_unlock G_VC_LOCK s2
                 in case g_active_vc s3 of
                      None \<Rightarrow>
                        (case vc_set_active_console 0 s3 of
                           Inl f \<Rightarrow> Inl f
                         | Inr (status, s4) \<Rightarrow> Inr (NO_ERROR, s4))
                    | Some a \<Rightarrow> Inr (NO_ERROR, vc_device_render a s3))))"

text \<open>The fix-up loop of \<^verbatim>\<open>vc_device_release\<close>, with its two \<^verbatim>\<open>break\<close>s.\<close>

fun release_fixup :: "vc_ptr list \<Rightarrow> 32 word \<Rightarrow> vc_state \<Rightarrow> vc_state" where
  "release_fixup [] i s = s"
| "release_fixup (d # rest) i s =
     (case g_active_vc s of
        Some a \<Rightarrow>
          if d = a then s\<lparr>g_active_vc_index := i\<rparr>
          else release_fixup rest (i + 1) s
      | None \<Rightarrow>
          if i = g_active_vc_index s then vc_set_active d i s
          else release_fixup rest (i + 1) s)"

text \<open>\<^verbatim>\<open>vc_device_release\<close>. \<^verbatim>\<open>list_delete\<close> unlinks the one node of \<^verbatim>\<open>vc\<close>;
  \<^verbatim>\<open>vc_device_free\<close> returns the object's memory and changes nothing the driver reads
  afterwards.\<close>

definition vc_device_release :: "vc_ptr \<Rightarrow> vc_state \<Rightarrow> mx_status \<times> vc_state" where
  "vc_device_release vc s =
     (let s0 = mtx_lock G_VC_LOCK s;
          s1 = s0\<lparr>g_vc_list := remove1 vc (g_vc_list s0), g_vc_count := g_vc_count s0 - 1\<rparr>;
          s2 = (if active (heap s1 vc)
                then (let s' = s1\<lparr>g_active_vc := None\<rparr>
                      in if g_active_vc_index s' \<ge> g_vc_count s'
                         then s'\<lparr>g_active_vc_index := g_vc_count s' - 1\<rparr>
                         else s')
                else s1);
          s3 = release_fixup (g_vc_list s2) 0 s2;
          s4 = mtx_unlock G_VC_LOCK s3
      in (NO_ERROR,
          case g_active_vc s4 of
            Some a \<Rightarrow> vc_device_render a s4
          | None \<Rightarrow> s4))"

subsection \<open>Runs of the registry operations\<close>

text \<open>The four operations that change the registry, as the callers of the driver issue
  them: console-open (with what the allocator and \<^verbatim>\<open>device_add_instance\<close> returned),
  console-close, the set-active control request on a handle, and set-active by index.\<close>

datatype vc_op =
    ConsoleOpen "mx_status + vc_ptr" mx_status
  | ConsoleClose vc_ptr
  | SetActive "vc_ptr option"
  | SetActiveByIndex "32 word"

fun apply_op :: "vc_op \<Rightarrow> vc_state \<Rightarrow> fault + vc_state" where
  "apply_op (ConsoleOpen alloc add) s =
     (case vc_root_open alloc add s of Inl f \<Rightarrow> Inl f | Inr (status, s') \<Rightarrow> Inr s')"
| "apply_op (ConsoleClose vc) s = Inr (snd (vc_device_release vc s))"
| "apply_op (SetActive dev) s = Inr (snd (vc_set_console_to_active dev s))"
| "apply_op (SetActiveByIndex i) s =
     (case vc_set_active_console i s of Inl f \<Rightarrow> Inl f | Inr (status, s') \<Rightarrow> Inr s')"

text \<open>What the environment guarantees of an operation: the allocator returns an object
  that is not registered, there is room for fewer than \<open>2 ^ 32\<close> objects, and only a
  registered console is closed.\<close>

fun op_allowed :: "vc_op \<Rightarrow> vc_state \<Rightarrow> bool" where
  "op_allowed (ConsoleOpen (Inr d) add) s =
     (d \<notin> set (g_vc_list s) \<and> Suc (length (g_vc_list s)) < 2 ^ 32)"
| "op_allowed (ConsoleOpen (Inl status) add) s = True"
| "op_allowed (ConsoleClose vc) s = (vc \<in> set (g_vc_list s))"
| "op_allowed (SetActive dev) s = True"
| "op_allowed (SetActiveByIndex i) s = True"

fun run :: "vc_op list \<Rightarrow> vc_state \<Rightarrow> fault + vc_state" where
  "run [] s = Inr s"
| "run (x # xs) s = (case apply_op x s of Inl f \<Rightarrow> Inl f | Inr s' \<Rightarrow> run xs s')"

fun allowed :: "vc_op list \<Rightarrow> vc_state \<Rightarrow> bool" where
  "allowed [] s = True"
| "allowed (x # xs) s =
     (op_allowed x s \<and> (case apply_op x s of Inl f \<Rightarrow> True | Inr s' \<Rightarrow> allowed xs s'))"

text \<open>The registry at driver start: the statics of the file, zero-initialised.\<close>

definition vc_init :: "(vc_ptr \<Rightarrow> vc_device_t) \<Rightarrow> bool \<Rightarrow> vc_state" where
  "vc_init h dm =
     \<lparr>g_vc_list = [], g_vc_count = 0, g_active_vc = None, g_active_vc_index = 0,
      heap = h, trace = [], dmctl_opens = dm\<rparr>"

text \<open>The invariant as the specification words it.\<close>

definition registry_invariant :: "vc_state \<Rightarrow> bool" where
  "registry_invariant s =
     (if g_vc_count s = 0
      then g_active_vc s = None \<and> filter (\<lambda>d. active (heap s d)) (g_vc_list s) = []
      else (case g_active_vc s of
              None \<Rightarrow> False
            | Some a \<Rightarrow>
                filter (\<lambda>d. active (heap s d)) (g_vc_list s) = [a] \<and>
                g_active_vc_index s < g_vc_count s))"

text \<open>The invariant that the operations maintain: it adds that the count is the length of
  the list, that no console is listed twice, and that the active index is the position of
  the active console.\<close>

definition reg_inv :: "vc_state \<Rightarrow> bool" where
  "reg_inv s \<longleftrightarrow>
     distinct (g_vc_list s) \<and>
     length (g_vc_list s) < 2 ^ 32 \<and>
     g_vc_count s = of_nat (length (g_vc_list s)) \<and>
     (case g_active_vc s of
        None \<Rightarrow> g_vc_list s = []
      | Some a \<Rightarrow> unat (g_active_vc_index s) < length (g_vc_list s) \<and>
                  g_vc_list s ! unat (g_active_vc_index s) = a) \<and>
     (\<forall>d \<in> set (g_vc_list s). active (heap s d) \<longleftrightarrow> g_active_vc s = Some d)"

section \<open>Keyboard input\<close>

text \<open>Modelled from the spec: the modifier masks of \<^verbatim>\<open>vc.h\<close>, which is not among the
  sources. The spec names the modifier classes SHIFT, ALT and CTRL; each is the union of
  the bit of the left key and the bit of the right key.\<close>

definition MOD_LSHIFT :: "32 word" where
  "MOD_LSHIFT = 1"

definition MOD_RSHIFT :: "32 word" where
  "MOD_RSHIFT = 2"

definition MOD_LALT :: "32 word" where
  "MOD_LALT = 4"

definition MOD_RALT :: "32 word" where
  "MOD_RALT = 8"

definition MOD_LCTRL :: "32 word" where
  "MOD_LCTRL = 16"

definition MOD_RCTRL :: "32 word" where
  "MOD_RCTRL = 32"

definition MOD_SHIFT :: "32 word" where
  "MOD_SHIFT = MOD_LSHIFT OR MOD_RSHIFT"

definition MOD_ALT :: "32 word" where
  "MOD_ALT = MOD_LALT OR MOD_RALT"

definition MOD_CTRL :: "32 word" where
  "MOD_CTRL = MOD_LCTRL OR MOD_RCTRL"

text \<open>The key codes of \<^verbatim>\<open>hid/usages.h\<close> (not among the sources) are the usage ids of
  the keyboard page of the USB HID usage tables.\<close>

definition HID_USAGE_KEY_ENTER :: "8 word" where
  "HID_USAGE_KEY_ENTER = 0x28"

definition HID_USAGE_KEY_ESC :: "8 word" where
  "HID_USAGE_KEY_ESC = 0x29"

definition HID_USAGE_KEY_BACKSPACE :: "8 word" where
  "HID_USAGE_KEY_BACKSPACE = 0x2a"

definition HID_USAGE_KEY_TAB :: "8 word" where
  "HID_USAGE_KEY_TAB = 0x2b"

definition HID_USAGE_KEY_F1 :: "8 word" where
  "HID_USAGE_KEY_F1 = 0x3a"

definition HID_USAGE_KEY_F10 :: "8 word" where
  "HID_USAGE_KEY_F10 = 0x43"

definition HID_USAGE_KEY_F11 :: "8 word" where
  "HID_USAGE_KEY_F11 = 0x44"

definition HID_USAGE_KEY_HOME :: "8 word" where
  "HID_USAGE_KEY_HOME = 0x4a"

definition HID_USAGE_KEY_PAGEUP :: "8 word" where
  "HID_USAGE_KEY_PAGEUP = 0x4b"

definition HID_USAGE_KEY_DELETE :: "8 word" where
  "HID_USAGE_KEY_DELETE = 0x4c"

definition HID_USAGE_KEY_END :: "8 word" where
  "HID_USAGE_KEY_END = 0x4d"

definition HID_USAGE_KEY_PAGEDOWN :: "8 word" where
  "HID_USAGE_KEY_PAGEDOWN = 0x4e"

definition HID_USAGE_KEY_RIGHT :: "8 word" where
  "HID_USAGE_KEY_RIGHT = 0x4f"

definition HID_USAGE_KEY_LEFT :: "8 word" where
  "HID_USAGE_KEY_LEFT = 0x50"

definition HID_USAGE_KEY_DOWN :: "8 word" where
  "HID_USAGE_KEY_DOWN = 0x51"

definition HID_USAGE_KEY_UP :: "8 word" where
  "HID_USAGE_KEY_UP = 0x52"

definition HID_USAGE_KEY_KP_ENTER :: "8 word" where
  "HID_USAGE_KEY_KP_ENTER = 0x58"

definition HID_USAGE_KEY_LEFT_CTRL :: "8 word" where
  "HID_USAGE_KEY_LEFT_CTRL = 0xe0"

definition HID_USAGE_KEY_LEFT_SHIFT :: "8 word" where
  "HID_USAGE_KEY_LEFT_SHIFT = 0xe1"

definition HID_USAGE_KEY_LEFT_ALT :: "8 word" where
  "HID_USAGE_KEY_LEFT_ALT = 0xe2"

definition HID_USAGE_KEY_RIGHT_CTRL :: "8 word" where
  "HID_USAGE_KEY_RIGHT_CTRL = 0xe4"

definition HID_USAGE_KEY_RIGHT_SHIFT :: "8 word" where
  "HID_USAGE_KEY_RIGHT_SHIFT = 0xe5"

definition HID_USAGE_KEY_RIGHT_ALT :: "8 word" where
  "HID_USAGE_KEY_RIGHT_ALT = 0xe6"

definition modifiers_from_keycode :: "8 word \<Rightarrow> 32 word" where
  "modifiers_from_keycode keycode =
     (if keycode = HID_USAGE_KEY_LEFT_SHIFT then MOD_LSHIFT
      else if keycode = HID_USAGE_KEY_RIGHT_SHIFT then MOD_RSHIFT
      else if keycode = HID_USAGE_KEY_LEFT_ALT then MOD_LALT
      else if keycode = HID_USAGE_KEY_RIGHT_ALT then MOD_RALT
      else if keycode = HID_USAGE_KEY_LEFT_CTRL then MOD_LCTRL
      else if keycode = HID_USAGE_KEY_RIGHT_CTRL then MOD_RCTRL
      else 0)"

subsection \<open>The translation to ANSI byte sequences\<close>

text \<open>Modelled from the spec: \<^verbatim>\<open>hid_map_key\<close> of the HID library, which is not among
  the sources: the character that the keymap yields for a key code and a shift state, and
  0 when it yields none. The keymap of a console is that table, as a function.\<close>

definition hid_map_key :: "8 word \<Rightarrow> bool \<Rightarrow> (8 word \<Rightarrow> bool \<Rightarrow> 8 word) \<Rightarrow> 8 word" where
  "hid_map_key usage shift km = km usage shift"

text \<open>\<^verbatim>\<open>hid_key_to_ansi_code\<close>: the new contents of \<^verbatim>\<open>buf\<close> and the number of bytes
  written. The characters are their ASCII codes: \<open>0x1b\<close> is ESC, \<open>0x5b\<close> is the bracket
  that opens a control sequence, \<open>0x7e\<close> the tilde, \<open>0x41\<close> and \<open>0x61\<close> the letters
  \<^verbatim>\<open>A\<close> and \<^verbatim>\<open>a\<close>.\<close>

definition hid_key_to_ansi_code ::
  "8 word \<Rightarrow> 32 word \<Rightarrow> (8 word \<Rightarrow> bool \<Rightarrow> 8 word) \<Rightarrow> 8 word list \<Rightarrow> nat
     \<Rightarrow> nat \<times> 8 word list" where
  "hid_key_to_ansi_code keycode modifiers km buf buf_size =
     (if buf_size \<noteq> 4 then (0, buf)
      else (let ch = hid_map_key keycode (modifiers AND MOD_SHIFT \<noteq> 0) km in
        if ch \<noteq> 0 then
          (if modifiers AND MOD_CTRL \<noteq> 0
           then (let sub = (if modifiers AND MOD_SHIFT \<noteq> 0 then 0x41 else 0x61)
                 in (1, buf[0 := ch - sub + 1]))
           else (1, buf[0 := ch]))
        else if keycode = HID_USAGE_KEY_ENTER \<or> keycode = HID_USAGE_KEY_KP_ENTER
          then (1, buf[0 := 0x0a])
        else if keycode = HID_USAGE_KEY_BACKSPACE then (1, buf[0 := 0x08])
        else if keycode = HID_USAGE_KEY_TAB then (1, buf[0 := 0x09])
        else if keycode = HID_USAGE_KEY_ESC then (1, buf[0 := 0x1b])
        else if keycode = HID_USAGE_KEY_UP then (3, buf[0 := 0x1b, 1 := 0x5b, 2 := 65])
        else if keycode = HID_USAGE_KEY_DOWN then (3, buf[0 := 0x1b, 1 := 0x5b, 2 := 66])
        else if keycode = HID_USAGE_KEY_RIGHT then (3, buf[0 := 0x1b, 1 := 0x5b, 2 := 67])
        else if keycode = HID_USAGE_KEY_LEFT then (3, buf[0 := 0x1b, 1 := 0x5b, 2 := 68])
        else if keycode = HID_USAGE_KEY_HOME then (3, buf[0 := 0x1b, 1 := 0x5b, 2 := 0x48])
        else if keycode = HID_USAGE_KEY_END then (3, buf[0 := 0x1b, 1 := 0x5b, 2 := 0x46])
        else if keycode = HID_USAGE_KEY_DELETE
          then (4, buf[0 := 0x1b, 1 := 0x5b, 2 := 0x33, 3 := 0x7e])
        else if keycode = HID_USAGE_KEY_PAGEUP
          then (4, buf[0 := 0x1b, 1 := 0x5b, 2 := 0x35, 3 := 0x7e])
        else if keycode = HID_USAGE_KEY_PAGEDOWN
          then (4, buf[0 := 0x1b, 1 := 0x5b, 2 := 0x36, 3 := 0x7e])
        else (0, buf)))"

text \<open>The byte sequence of a key press, as \<^verbatim>\<open>vc_handle_key_press\<close> obtains it: the
  translator is called on the local \<^verbatim>\<open>char output[4]\<close> with \<^verbatim>\<open>sizeof(output)\<close>, and
  the first \<^verbatim>\<open>length\<close> bytes are the sequence. The array is not initialised in the
  source; only bytes that the translator has written are read.\<close>

definition ansi_bytes :: "8 word \<Rightarrow> 32 word \<Rightarrow> (8 word \<Rightarrow> bool \<Rightarrow> 8 word) \<Rightarrow> 8 word list" where
  "ansi_bytes keycode modifiers km =
     (let (len, output) = hid_key_to_ansi_code keycode modifiers km [0, 0, 0, 0] 4
      in take len output)"

subsection \<open>The Per-VC FIFO\<close>

definition mx_hid_fifo_size :: "mx_hid_fifo_t \<Rightarrow> nat" where
  "mx_hid_fifo_size f = length (content f)"

definition fifo_free :: "mx_hid_fifo_t \<Rightarrow> nat" where
  "fifo_free f = capacity f - length (content f)"

text \<open>Modelled from the spec: \<^verbatim>\<open>mx_hid_fifo_write\<close> of the HID library, which is not
  among the sources: ``attempt atomic enqueue; if free space is less than the sequence
  length, enqueue nothing and return a would-block/full indication -- never truncate''.\<close>

definition mx_hid_fifo_write ::
  "mx_hid_fifo_t \<Rightarrow> 8 word list \<Rightarrow> (mx_status + nat) \<times> mx_hid_fifo_t" where
  "mx_hid_fifo_write f bytes =
     (if fifo_free f < length bytes then (Inl ERR_SHOULD_WAIT, f)
      else (Inr (length bytes), f\<lparr>content := content f @ bytes\<rparr>))"

text \<open>Modelled from the spec: \<^verbatim>\<open>mx_hid_fifo_read\<close> of the HID library, which is not
  among the sources: ``drain up to the requested count''. It returns the number of bytes
  drained, the bytes, and the FIFO that is left.\<close>

definition mx_hid_fifo_read ::
  "mx_hid_fifo_t \<Rightarrow> nat \<Rightarrow> nat \<times> 8 word list \<times> mx_hid_fifo_t" where
  "mx_hid_fifo_read f count =
     (let n = min count (length (content f))
      in (n, take n (content f), f\<lparr>content := drop n (content f)\<rparr>))"

subsection \<open>Control keys and key presses\<close>

text \<open>Modelled from the spec: \<^verbatim>\<open>vc_device_set_fullscreen\<close>, \<^verbatim>\<open>vc_device_scroll_viewport\<close>
  and \<^verbatim>\<open>vc_device_rows\<close> are in \<^verbatim>\<open>vc-device.c\<close>, not among the sources. The first sets
  or clears the fullscreen flag of the console; the second scrolls its viewport by a number
  of lines; the third is its visible row count. The two calls are recorded as events.\<close>

definition vc_device_set_fullscreen :: "vc_ptr \<Rightarrow> bool \<Rightarrow> vc_state \<Rightarrow> vc_state" where
  "vc_device_set_fullscreen d fullscreen s =
     emit (SetFullscreen d fullscreen)
       (s\<lparr>heap := (heap s)(d := (heap s d)\<lparr>flags :=
            (if fullscreen then flags (heap s d) OR VC_FLAG_FULLSCREEN
             else flags (heap s d) AND NOT VC_FLAG_FULLSCREEN)\<rparr>)\<rparr>)"

definition vc_device_scroll_viewport :: "vc_ptr option \<Rightarrow> int \<Rightarrow> vc_state \<Rightarrow> vc_state" where
  "vc_device_scroll_viewport d dir s = emit (ScrollViewport d dir) s"

definition vc_device_rows :: "vc_device_t \<Rightarrow> int" where
  "vc_device_rows d = rows d"

text \<open>Division of C \<^verbatim>\<open>int\<close> by two: towards zero.\<close>

definition half :: "int \<Rightarrow> int" where
  "half r = (if 0 \<le> r then r div 2 else - ((- r) div 2))"

text \<open>A control key that switches the console is handled whatever status
  \<^verbatim>\<open>vc_set_active_console\<close> returns; a fault is passed on.\<close>

definition handled :: "fault + mx_status \<times> vc_state \<Rightarrow> fault + bool \<times> vc_state" where
  "handled r = (case r of Inl f \<Rightarrow> Inl f | Inr (status, s') \<Rightarrow> Inr (True, s'))"

text \<open>\<^verbatim>\<open>vc_handle_control_keys\<close>: whether the key press was handled, and the state it
  leaves. The cases of the \<^verbatim>\<open>switch\<close> are in the order of the source; a case that does
  not return falls out of the \<^verbatim>\<open>switch\<close> to \<^verbatim>\<open>return false\<close>.\<close>

definition vc_handle_control_keys ::
  "8 word \<Rightarrow> 32 word \<Rightarrow> vc_state \<Rightarrow> fault + bool \<times> vc_state" where
  "vc_handle_control_keys keycode modifiers s =
     (if HID_USAGE_KEY_F1 \<le> keycode \<and> keycode \<le> HID_USAGE_KEY_F10 then
        (if modifiers AND MOD_ALT \<noteq> 0
         then handled (vc_set_active_console (ucast (keycode - HID_USAGE_KEY_F1)) s)
         else Inr (False, s))
      else if keycode = HID_USAGE_KEY_F11 then
        (case g_active_vc s of
           Some a \<Rightarrow>
             if modifiers AND MOD_ALT \<noteq> 0
             then Inr (True, vc_device_set_fullscreen a
                               (flags (heap s a) AND VC_FLAG_FULLSCREEN = 0) s)
             else Inr (False, s)
         | None \<Rightarrow> Inr (False, s))
      else if keycode = HID_USAGE_KEY_TAB then
        (if modifiers AND MOD_ALT \<noteq> 0 then
           (if modifiers AND MOD_SHIFT \<noteq> 0
            then handled (vc_set_active_console
                   (if g_active_vc_index s = 0 then g_vc_count s - 1
                    else g_active_vc_index s - 1) s)
            else handled (vc_set_active_console
                   (if g_active_vc_index s = g_vc_count s - 1 then 0
                    else g_active_vc_index s + 1) s))
         else Inr (False, s))
      else if keycode = HID_USAGE_KEY_UP then
        (if modifiers AND MOD_ALT \<noteq> 0
         then Inr (True, vc_device_scroll_viewport (g_active_vc s) (- 1) s)
         else Inr (False, s))
      else if keycode = HID_USAGE_KEY_DOWN then
        (if modifiers AND MOD_ALT \<noteq> 0
         then Inr (True, vc_device_scroll_viewport (g_active_vc s) 1 s)
         else Inr (False, s))
      else if keycode = HID_USAGE_KEY_PAGEUP then
        (if modifiers AND MOD_SHIFT \<noteq> 0 then
           (case g_active_vc s of
              None \<Rightarrow> Inl NullDeref
            | Some a \<Rightarrow>
                Inr (True, vc_device_scroll_viewport (Some a)
                             (- half (vc_device_rows (heap s a))) s))
         else Inr (False, s))
      else if keycode = HID_USAGE_KEY_PAGEDOWN then
        (if modifiers AND MOD_SHIFT \<noteq> 0 then
           (case g_active_vc s of
              None \<Rightarrow> Inl NullDeref
            | Some a \<Rightarrow>
                Inr (True, vc_device_scroll_viewport (Some a)
                             (half (vc_device_rows (heap s a))) s))
         else Inr (False, s))
      else if keycode = HID_USAGE_KEY_DELETE then
        (if modifiers AND MOD_CTRL \<noteq> 0 \<and> modifiers AND MOD_ALT \<noteq> 0
         then Inr (True, if dmctl_opens s then emit (DmctlWrite ''reboot'') s else s)
         else Inr (False, s))
      else Inr (False, s))"

text \<open>\<^verbatim>\<open>vc_handle_key_press\<close>. The console is \<^verbatim>\<open>g_active_vc\<close>, read through without
  a null check. \<^verbatim>\<open>device_state_set\<close> raises the readability signal of the console.\<close>

definition vc_handle_key_press :: "8 word \<Rightarrow> 32 word \<Rightarrow> vc_state \<Rightarrow> fault + vc_state" where
  "vc_handle_key_press keycode modifiers s =
     (case vc_handle_control_keys keycode modifiers s of
        Inl f \<Rightarrow> Inl f
      | Inr (True, s') \<Rightarrow> Inr s'
      | Inr (False, s') \<Rightarrow>
          (case g_active_vc s' of
             None \<Rightarrow> Inl NullDeref
           | Some a \<Rightarrow>
               (let s0 = mtx_lock (FIFO_LOCK a) s';
                    d0 = heap s0 a;
                    d1 = (if mx_hid_fifo_size (fifo d0) = 0
                          then d0\<lparr>flags := flags d0 OR VC_FLAG_RESETSCROLL\<rparr>
                          else d0);
                    (len, output) =
                       hid_key_to_ansi_code keycode modifiers (keymap d1) [0, 0, 0, 0] 4;
                    s1 = s0\<lparr>heap := (heap s0)(a := d1)\<rparr>;
                    s2 = (if len > 0
                          then (let bytes = take len output;
                                    (r, f) = mx_hid_fifo_write (fifo d1) bytes;
                                    d2 = d1\<lparr>fifo := f\<rparr>;
                                    d3 = d2\<lparr>readable := True\<rparr>
                                in emit (FifoWrite a bytes) (s1\<lparr>heap := (heap s1)(a := d3)\<rparr>))
                          else s1)
                in Inr (mtx_unlock (FIFO_LOCK a) s2))))"

subsection \<open>Reading a console\<close>

text \<open>\<^verbatim>\<open>vc_device_read\<close>: the result (a byte count, or the status that stands for
  ``would block''), the bytes copied to the caller's buffer, and the state.
  \<^verbatim>\<open>device_state_clr\<close> lowers the readability signal.\<close>

definition vc_device_read ::
  "vc_ptr \<Rightarrow> nat \<Rightarrow> vc_state \<Rightarrow> (mx_status + nat) \<times> 8 word list \<times> vc_state" where
  "vc_device_read dev count s =
     (let s0 = mtx_lock (FIFO_LOCK dev) s;
          vc = heap s0 dev;
          (result, bytes, f) = mx_hid_fifo_read (fifo vc) count;
          vc1 = vc\<lparr>fifo := f\<rparr>;
          vc2 = (if mx_hid_fifo_size (fifo vc1) = 0 then vc1\<lparr>readable := False\<rparr> else vc1);
          s1 = emit (FifoRead dev count) (s0\<lparr>heap := (heap s0)(dev := vc2)\<rparr>);
          s2 = mtx_unlock (FIFO_LOCK dev) s1
      in (if result = 0 then Inl ERR_SHOULD_WAIT else Inr result, bytes, s2))"

section \<open>Key repeat\<close>

text \<open>The repeat interval of \<^verbatim>\<open>vc_input_thread\<close> is a \<^verbatim>\<open>uint64_t\<close>.
  \<^verbatim>\<open>MX_TIME_INFINITE\<close> (of \<^verbatim>\<open>magenta/types.h\<close>, not among the sources) is the
  largest value of the type: a wait with this timeout does not time out.\<close>

definition LOW_REPEAT_KEY_FREQUENCY_MICRO :: "64 word" where
  "LOW_REPEAT_KEY_FREQUENCY_MICRO = 250000000"

definition HIGH_REPEAT_KEY_FREQUENCY_MICRO :: "64 word" where
  "HIGH_REPEAT_KEY_FREQUENCY_MICRO = 50000000"

definition MX_TIME_INFINITE :: "64 word" where
  "MX_TIME_INFINITE = - 1"

text \<open>The two assignments of the time-out branch:
  \<^verbatim>\<open>repeat_interval = repeat_interval * 3 / 4\<close>, then the floor.\<close>

definition accelerate :: "64 word \<Rightarrow> 64 word" where
  "accelerate repeat_interval =
     (let r = repeat_interval * 3 div 4
      in if r < HIGH_REPEAT_KEY_FREQUENCY_MICRO then HIGH_REPEAT_KEY_FREQUENCY_MICRO else r)"

text \<open>What one turn of the loop of \<^verbatim>\<open>vc_input_thread\<close> meets: the wait times out; the
  read fails; the read is short; there is no active console; or a report is processed, of
  which the loop then inspects the key masks \<^verbatim>\<open>key_pressed\<close> and \<^verbatim>\<open>key_released\<close>
  (eight 32-bit words each).\<close>

datatype turn =
    TimedOut
  | ReadFailed
  | ShortRead
  | NoActiveVc
  | Report "32 word list" "32 word list"

text \<open>The repeat interval after one turn; \<open>None\<close> when the thread leaves the loop.\<close>

fun next_interval :: "bool \<Rightarrow> turn \<Rightarrow> 64 word \<Rightarrow> 64 word option" where
  "next_interval repeat_enabled TimedOut v = Some (accelerate v)"
| "next_interval repeat_enabled ReadFailed v = None"
| "next_interval repeat_enabled ShortRead v = Some MX_TIME_INFINITE"
| "next_interval repeat_enabled NoActiveVc v = Some MX_TIME_INFINITE"
| "next_interval repeat_enabled (Report key_pressed key_released) v =
     (if repeat_enabled then
        (let pressed = list_ex (\<lambda>w. w \<noteq> 0) (take 7 key_pressed);
             released = list_ex (\<lambda>w. w \<noteq> 0) (take 8 key_released)
         in if released then Some MX_TIME_INFINITE
            else if pressed then Some LOW_REPEAT_KEY_FREQUENCY_MICRO
            else Some v)
      else Some v)"

text \<open>The wait can time out only when its timeout is finite.\<close>

fun turn_possible :: "turn \<Rightarrow> 64 word \<Rightarrow> bool" where
  "turn_possible TimedOut v = (v \<noteq> MX_TIME_INFINITE)"
| "turn_possible t v = True"

text \<open>The interval after a sequence of turns, starting with the thread's initial
  \<^verbatim>\<open>MX_TIME_INFINITE\<close>; \<open>None\<close> when the sequence cannot happen or the thread has left
  the loop.\<close>

fun interval_after :: "bool \<Rightarrow> turn list \<Rightarrow> 64 word \<Rightarrow> 64 word option" where
  "interval_after repeat_enabled [] v = Some v"
| "interval_after repeat_enabled (t # ts) v =
     (if turn_possible t v
      then (case next_interval repeat_enabled t v of
              None \<Rightarrow> None
            | Some v' \<Rightarrow> interval_after repeat_enabled ts v')
      else None)"

section \<open>The battery poller\<close>

datatype battery_state = UNKNOWN | ERROR | CHARGING | NOT_CHARGING

text \<open>\<^verbatim>\<open>pct\<close> is a C \<^verbatim>\<open>int\<close>: 32 bits, read as two's complement by \<open>sint\<close>.\<close>

record vc_battery_info_t =
  state :: battery_state
  pct :: "32 word"

text \<open>The poller reads into the local array \<^verbatim>\<open>char str[16]\<close>, which it never clears and
  never terminates itself. A \<open>string\<close> below is the memory from a pointer into the array
  to the end of the array, so \<^verbatim>\<open>str\<close> is a list of 16 characters and \<^verbatim>\<open>&str[1]\<close> is
  its tail. A scan that has not stopped at the end of the list reads past the array:
  this is \<open>None\<close>.

  \<^verbatim>\<open>atoi\<close> is the function of the C library: white space is skipped, one sign is read,
  and the decimal digits that follow are the value, which is built as a negative number
  and negated at the end unless the sign was minus. The scan stops at the first character
  that is no digit (the terminating NUL of a string is one). The accumulator is an
  \<^verbatim>\<open>int\<close>: its arithmetic is that of 32-bit words.\<close>

definition isspace :: "char \<Rightarrow> bool" where
  "isspace c \<longleftrightarrow> c = CHR '' '' \<or> (9 :: nat) \<le> of_char c \<and> of_char c \<le> (13 :: nat)"

definition isdigit :: "char \<Rightarrow> bool" where
  "isdigit c \<longleftrightarrow> (48 :: nat) \<le> of_char c \<and> of_char c \<le> (57 :: nat)"

fun skip_space :: "string \<Rightarrow> string option" where
  "skip_space [] = None"
| "skip_space (c # cs) = (if isspace c then skip_space cs else Some (c # cs))"

fun atoi_digits :: "string \<Rightarrow> 32 word \<Rightarrow> 32 word option" where
  "atoi_digits [] n = None"
| "atoi_digits (c # cs) n =
     (if isdigit c then atoi_digits cs (10 * n - (of_nat (of_char c) - 48)) else Some n)"

definition atoi :: "string \<Rightarrow> 32 word option" where
  "atoi s =
     (case skip_space s of
        None \<Rightarrow> None
      | Some [] \<Rightarrow> None
      | Some (c # cs) \<Rightarrow>
          if c = CHR ''-'' then atoi_digits cs 0
          else if c = CHR ''+'' then map_option uminus (atoi_digits cs 0)
          else map_option uminus (atoi_digits (c # cs) 0))"

text \<open>\<^verbatim>\<open>read(fd, str, sizeof(str))\<close> that returns the \<open>r\<close> bytes \<open>data\<close>: they replace the
  first \<open>r\<close> bytes of the array, and the bytes behind them stay what they were.\<close>

definition store_read :: "string \<Rightarrow> string \<Rightarrow> string" where
  "store_read data str = take (length str) data @ drop (length data) str"

text \<open>The classification of \<^verbatim>\<open>vc_battery_poll_thread\<close>, on the array \<^verbatim>\<open>str\<close> as the read
  left it: the new \<^verbatim>\<open>g_battery_info\<close>, or \<open>None\<close> when \<^verbatim>\<open>atoi\<close> reads past the array.\<close>

definition battery_parse :: "string \<Rightarrow> vc_battery_info_t option" where
  "battery_parse str =
     (case str of
        [] \<Rightarrow> None
      | c # rest \<Rightarrow>
          if c = CHR ''e'' then Some \<lparr>state = ERROR, pct = - 1\<rparr>
          else if c = CHR ''c''
            then map_option (\<lambda>n. \<lparr>state = CHARGING, pct = n\<rparr>) (atoi rest)
          else map_option (\<lambda>n. \<lparr>state = NOT_CHARGING, pct = n\<rparr>) (atoi str))"

text \<open>One turn of the poller's loop: the device cannot be opened (the thread returns), the
  read fails (the loop is left), or \<open>r \<ge> 0\<close> bytes are read into \<^verbatim>\<open>str\<close> and
  \<^verbatim>\<open>g_battery_info\<close> is replaced. The result is the array and the battery status after
  the turn.\<close>

datatype poll = OpenFailed | PollReadFailed | PollRead string

datatype poll_result = ThreadEnds | ReadsPastStr | Polled string vc_battery_info_t

fun vc_battery_poll :: "poll \<Rightarrow> string \<Rightarrow> vc_battery_info_t \<Rightarrow> poll_result" where
  "vc_battery_poll OpenFailed str g_battery_info = ThreadEnds"
| "vc_battery_poll PollReadFailed str g_battery_info = ThreadEnds"
| "vc_battery_poll (PollRead data) str g_battery_info =
     (case battery_parse (store_read data str) of
        None \<Rightarrow> ReadsPastStr
      | Some info \<Rightarrow> Polled (store_read data str) info)"

text \<open>The number that a string of decimal digits denotes.\<close>

definition decimal :: "string \<Rightarrow> nat" where
  "decimal ds = foldl (\<lambda>v c. 10 * v + (of_char c - 48)) 0 ds"

section \<open>Concrete consoles and registries\<close>

text \<open>A console with a FIFO of four bytes and a keymap that yields no character, and the
  registry [A, B, C] = [1, 2, 3] of the removal scenario, with B active at index 1.\<close>

definition dev0 :: vc_device_t where
  "dev0 = \<lparr>active = False, flags = 0, fifo = \<lparr>content = [], capacity = 4\<rparr>,
           readable = False, keymap = (\<lambda>usage shift. 0), rows = 25\<rparr>"

definition abc_state :: vc_state where
  "abc_state =
     \<lparr>g_vc_list = [1, 2, 3], g_vc_count = 3, g_active_vc = Some 2, g_active_vc_index = 1,
      heap = (\<lambda>p. dev0)(2 := dev0\<lparr>active := True\<rparr>), trace = [], dmctl_opens = True\<rparr>"

text \<open>The registry with the one console A = 1, which is active.\<close>

definition one_state :: vc_state where
  "one_state =
     \<lparr>g_vc_list = [1], g_vc_count = 1, g_active_vc = Some 1, g_active_vc_index = 0,
      heap = (\<lambda>p. dev0)(1 := dev0\<lparr>active := True\<rparr>), trace = [], dmctl_opens = True\<rparr>"

text \<open>The key codes of the special-key table: the case labels of the \<^verbatim>\<open>switch\<close> of
  \<^verbatim>\<open>hid_key_to_ansi_code\<close>.\<close>

definition special_keys :: "8 word list" where
  "special_keys =
     [HID_USAGE_KEY_ENTER, HID_USAGE_KEY_KP_ENTER, HID_USAGE_KEY_BACKSPACE, HID_USAGE_KEY_TAB,
      HID_USAGE_KEY_ESC, HID_USAGE_KEY_UP, HID_USAGE_KEY_DOWN, HID_USAGE_KEY_RIGHT,
      HID_USAGE_KEY_LEFT, HID_USAGE_KEY_HOME, HID_USAGE_KEY_END, HID_USAGE_KEY_DELETE,
      HID_USAGE_KEY_PAGEUP, HID_USAGE_KEY_PAGEDOWN]"

text \<open>A keymap with one key: usage 4, the letter \<^verbatim>\<open>a\<close>, with \<^verbatim>\<open>A\<close> under shift.\<close>

definition keymap_a :: "8 word \<Rightarrow> bool \<Rightarrow> 8 word" where
  "keymap_a usage shift = (if usage = 4 then (if shift then 0x41 else 0x61) else 0)"

text \<open>The registry with the one active console 1, whose FIFO of four bytes holds two, and
  whose readability signal is up.\<close>

definition tight_state :: vc_state where
  "tight_state =
     \<lparr>g_vc_list = [1], g_vc_count = 1, g_active_vc = Some 1, g_active_vc_index = 0,
      heap = (\<lambda>p. dev0)(1 := dev0\<lparr>active := True,
                fifo := \<lparr>content = [0x61, 0x62], capacity = 4\<rparr>, readable := True\<rparr>),
      trace = [], dmctl_opens = True\<rparr>"

text \<open>The same registry as \<open>one_state\<close> on a system whose control file cannot be opened.\<close>

definition no_dmctl_state :: vc_state where
  "no_dmctl_state = one_state\<lparr>dmctl_opens := False\<rparr>"

text \<open>The array \<^verbatim>\<open>str\<close> as an earlier read of the string \<^verbatim>\<open>c100\<close> with its terminator
  left it, the bytes behind the terminator being whatever they were.\<close>

definition stale_str :: string where
  "stale_str = ''c100'' @ [CHR 0x00] @ ''xxxxxxxxxxx''"

section \<open>Proofs: the registry\<close>

lemma emit_fields [simp]:
  "g_vc_list (emit e s) = g_vc_list s"
  "g_vc_count (emit e s) = g_vc_count s"
  "g_active_vc (emit e s) = g_active_vc s"
  "g_active_vc_index (emit e s) = g_active_vc_index s"
  "heap (emit e s) = heap s"
  "dmctl_opens (emit e s) = dmctl_opens s"
  "trace (emit e s) = trace s @ [e]"
  by (simp_all add: emit_def)

lemma vc_set_active_fields [simp]:
  "g_vc_list (vc_set_active d i s) = g_vc_list s"
  "g_vc_count (vc_set_active d i s) = g_vc_count s"
  "g_active_vc (vc_set_active d i s) = Some d"
  "g_active_vc_index (vc_set_active d i s) = i"
  "trace (vc_set_active d i s) = trace s"
  "dmctl_opens (vc_set_active d i s) = dmctl_opens s"
  by (simp_all add: vc_set_active_def Let_def)

lemma vc_set_active_emit: "vc_set_active d i (emit e s) = emit e (vc_set_active d i s)"
  by (simp add: vc_set_active_def emit_def Let_def)

lemma active_vc_set_active [simp]:
  "active (heap (vc_set_active d i s) x) =
     (if x = d then True else if g_active_vc s = Some x then False else active (heap s x))"
  by (auto simp: vc_set_active_def Let_def split: option.splits)

lemma fifo_vc_set_active [simp]: "fifo (heap (vc_set_active d i s) x) = fifo (heap s x)"
  by (auto simp: vc_set_active_def Let_def split: option.splits)

lemma find_dev_eq:
  "find_dev xs d i = i + of_nat (length (takeWhile (\<lambda>x. x \<noteq> d) xs))"
  by (induction xs arbitrary: i) (auto simp: algebra_simps)

lemma unat_sub_succ:
  fixes c i :: "32 word"
  assumes "i \<noteq> c"
  shows "unat (c - (i + 1)) = unat (c - i) - 1"
proof -
  have "c - i \<noteq> 0" using assms by auto
  then have "unat (c - i - 1) = unat (c - i) - 1" by (rule unat_minus_one)
  then show ?thesis by (simp add: diff_diff_eq)
qed

lemma entry_at_eq:
  "entry_at xs c i = (if unat (c - i) < length xs then Some (xs ! unat (c - i)) else None)"
proof (induction xs arbitrary: i)
  case Nil
  show ?case by simp
next
  case (Cons x xs)
  show ?case
  proof (cases "i = c")
    case True
    then show ?thesis by simp
  next
    case False
    then have nz: "unat (c - i) \<noteq> 0" by (simp add: unat_eq_zero)
    have "unat (c - (i + 1)) = unat (c - i) - 1" using False by (rule unat_sub_succ)
    with nz False Cons show ?thesis by (auto simp: nth_Cons')
  qed
qed

lemma release_fixup_none:
  "g_active_vc s = None \<Longrightarrow>
   release_fixup xs i s =
     (if unat (g_active_vc_index s - i) < length xs
      then vc_set_active (xs ! unat (g_active_vc_index s - i)) (g_active_vc_index s) s
      else s)"
proof (induction xs arbitrary: i)
  case Nil
  show ?case by simp
next
  case (Cons x xs)
  show ?case
  proof (cases "i = g_active_vc_index s")
    case True
    then show ?thesis using Cons.prems by simp
  next
    case False
    then have nz: "unat (g_active_vc_index s - i) \<noteq> 0" by (simp add: unat_eq_zero)
    have "unat (g_active_vc_index s - (i + 1)) = unat (g_active_vc_index s - i) - 1"
      using False by (rule unat_sub_succ)
    with nz False Cons show ?thesis by (auto simp: nth_Cons')
  qed
qed

lemma release_fixup_some:
  "g_active_vc s = Some a \<Longrightarrow>
   release_fixup xs i s =
     (if a \<in> set xs
      then s\<lparr>g_active_vc_index := i + of_nat (length (takeWhile (\<lambda>x. x \<noteq> a) xs))\<rparr>
      else s)"
  by (induction xs arbitrary: i) (auto simp: algebra_simps)

lemma unat_of_nat32: "n < 2 ^ 32 \<Longrightarrow> unat (of_nat n :: 32 word) = n"
  by (simp add: unat_of_nat)

lemma of_nat_pred32: "0 < n \<Longrightarrow> (of_nat n :: 32 word) - 1 = of_nat (n - 1)"
  by (cases n) simp_all

lemma takeWhile_index:
  "d \<in> set xs \<Longrightarrow> length (takeWhile (\<lambda>x. x \<noteq> d) xs) < length xs \<and>
     xs ! length (takeWhile (\<lambda>x. x \<noteq> d) xs) = d"
  by (induction xs) auto

lemma takeWhile_notin:
  "d \<notin> set xs \<Longrightarrow> length (takeWhile (\<lambda>x. x \<noteq> d) xs) = length xs"
  by (induction xs) auto

lemma reg_inv_emit [simp]: "reg_inv (emit e s) = reg_inv s"
  by (simp add: reg_inv_def split: option.splits)

lemma reg_inv_vc_set_active:
  assumes "distinct (g_vc_list s)" "length (g_vc_list s) < 2 ^ 32"
      "g_vc_count s = of_nat (length (g_vc_list s))"
      "\<forall>d \<in> set (g_vc_list s). active (heap s d) \<longleftrightarrow> g_active_vc s = Some d"
    and k: "k < length (g_vc_list s)"
  shows "reg_inv (vc_set_active (g_vc_list s ! k) (of_nat k) s)"
  using assms
  by (auto simp: reg_inv_def unat_of_nat32 nth_eq_iff_index_eq)

lemma reg_inv_set_console_to_active:
  assumes "reg_inv s"
  shows "reg_inv (snd (vc_set_console_to_active dev s))"
proof (cases dev)
  case None
  then show ?thesis using assms by (simp add: vc_set_console_to_active_def)
next
  case (Some d)
  let ?xs = "g_vc_list s"
  let ?j = "length (takeWhile (\<lambda>x. x \<noteq> d) ?xs)"
  have len: "length ?xs < 2 ^ 32" and cnt: "g_vc_count s = of_nat (length ?xs)"
    using assms by (auto simp: reg_inv_def)
  show ?thesis
  proof (cases "d \<in> set ?xs")
    case True
    then have j: "?j < length ?xs" "?xs ! ?j = d" using takeWhile_index [OF True] by auto
    have "reg_inv (vc_set_active (?xs ! ?j) (of_nat ?j) s)"
      using assms j(1) by (intro reg_inv_vc_set_active) (auto simp: reg_inv_def)
    then show ?thesis
      using Some j assms
      by (simp add: vc_set_console_to_active_def find_dev_eq Let_def mtx_lock_def
          mtx_unlock_def vc_device_render_def vc_set_active_emit)
  next
    case False
    then have "?j = length ?xs" by (rule takeWhile_notin)
    then show ?thesis
      using Some assms cnt
      by (simp add: vc_set_console_to_active_def find_dev_eq Let_def mtx_lock_def
          mtx_unlock_def vc_device_render_def vc_set_active_emit)
  qed
qed

lemma reg_inv_set_active_console:
  assumes "reg_inv s"
  shows "\<exists>st s'. vc_set_active_console c s = Inr (st, s') \<and> reg_inv s'"
proof (cases "c \<ge> g_vc_count s")
  case True
  then show ?thesis using assms by (simp add: vc_set_active_console_def)
next
  case False
  let ?xs = "g_vc_list s"
  have len: "length ?xs < 2 ^ 32" and cnt: "g_vc_count s = of_nat (length ?xs)"
    using assms by (auto simp: reg_inv_def)
  from False have "unat c < unat (g_vc_count s)" by (simp add: word_less_nat_alt not_le)
  then have k: "unat c < length ?xs" using len cnt by (simp add: unat_of_nat32)
  have "reg_inv (vc_set_active (?xs ! unat c) (of_nat (unat c)) s)"
    using assms k by (intro reg_inv_vc_set_active) (auto simp: reg_inv_def)
  then show ?thesis
    using False k assms
    by (simp add: vc_set_active_console_def entry_at_eq Let_def mtx_lock_def
        mtx_unlock_def vc_device_render_def vc_set_active_emit)
qed

lemma reg_inv_root_open:
  assumes inv: "reg_inv s"
    and fresh: "case alloc of Inl st \<Rightarrow> True
                | Inr d \<Rightarrow> d \<notin> set (g_vc_list s) \<and> Suc (length (g_vc_list s)) < 2 ^ 32"
  shows "\<exists>st s'. vc_root_open alloc add s = Inr (st, s') \<and> reg_inv s'"
proof (cases alloc)
  case (Inl st)
  then show ?thesis using inv by (simp add: vc_root_open_def)
next
  case (Inr d)
  let ?xs = "g_vc_list s"
  define s0 where "s0 = s\<lparr>heap := (heap s)(d := vc_device_alloc (heap s d))\<rparr>"
  define s3 where "s3 = mtx_unlock G_VC_LOCK
     ((mtx_lock G_VC_LOCK s0)\<lparr>g_vc_list := g_vc_list (mtx_lock G_VC_LOCK s0) @ [d],
        g_vc_count := g_vc_count (mtx_lock G_VC_LOCK s0) + 1\<rparr>)"
  from fresh Inr have d: "d \<notin> set ?xs" and len: "Suc (length ?xs) < 2 ^ 32" by auto
  have inv0: "reg_inv s0"
    using inv d unfolding s0_def reg_inv_def by (auto split: option.splits)
  have ro: "add = NO_ERROR \<Longrightarrow> vc_root_open alloc add s =
      (case g_active_vc s3 of
         None \<Rightarrow> (case vc_set_active_console 0 s3 of
                     Inl f \<Rightarrow> Inl f
                   | Inr (status, s4) \<Rightarrow> Inr (NO_ERROR, s4))
       | Some a \<Rightarrow> Inr (NO_ERROR, vc_device_render a s3))"
    using Inr unfolding vc_root_open_def s3_def s0_def
    by (simp add: Let_def)
  have s3_fields: "g_vc_list s3 = ?xs @ [d]" "g_vc_count s3 = g_vc_count s + 1"
    "g_active_vc s3 = g_active_vc s" "g_active_vc_index s3 = g_active_vc_index s"
    "heap s3 = (heap s)(d := vc_device_alloc (heap s d))"
    by (simp_all add: s3_def s0_def mtx_lock_def mtx_unlock_def)
  show ?thesis
  proof (cases "add = NO_ERROR")
    case False
    then show ?thesis using Inr inv0 by (simp add: vc_root_open_def s0_def Let_def)
  next
    case True
    show ?thesis
    proof (cases "g_active_vc s")
      case None
      then have empty: "?xs = []" using inv by (simp add: reg_inv_def)
      have cnt0: "g_vc_count s = 0" using inv empty by (simp add: reg_inv_def)
      have "reg_inv (vc_set_active (g_vc_list s3 ! 0) (of_nat 0) s3)"
        by (rule reg_inv_vc_set_active)
           (simp_all add: s3_fields empty cnt0 None vc_device_alloc_def)
      then have "reg_inv (vc_set_active d 0 s3)" by (simp add: s3_fields empty)
      moreover have "vc_root_open alloc add s =
          Inr (NO_ERROR, vc_device_render d (mtx_unlock G_VC_LOCK
                 (vc_set_active d 0 (mtx_lock G_VC_LOCK s3))))"
        using ro [OF True] None
        by (simp add: s3_fields empty cnt0 Let_def vc_set_active_console_def mtx_lock_def)
      ultimately show ?thesis
        by (simp add: mtx_lock_def mtx_unlock_def vc_device_render_def vc_set_active_emit)
    next
      case (Some a)
      have "reg_inv s3"
        using inv d len Some unfolding reg_inv_def s3_fields
        by (auto simp: nth_append vc_device_alloc_def)
      moreover have "vc_root_open alloc add s = Inr (NO_ERROR, vc_device_render a s3)"
        using ro [OF True] Some by (simp add: s3_fields)
      ultimately show ?thesis by (simp add: vc_device_render_def)
    qed
  qed
qed

lemma release_active_eq:
  assumes len: "length (g_vc_list s) < 2 ^ 32"
    and cnt: "g_vc_count s = of_nat (length (g_vc_list s))"
    and mem: "vc \<in> set (g_vc_list s)"
    and act: "active (heap s vc)"
    and rest: "remove1 vc (g_vc_list s) \<noteq> []"
  shows "\<exists>k. unat k = min (unat (g_active_vc_index s)) (length (remove1 vc (g_vc_list s)) - 1) \<and>
    vc_device_release vc s =
      (NO_ERROR,
       vc_device_render (remove1 vc (g_vc_list s) ! unat k)
         (mtx_unlock G_VC_LOCK
           (vc_set_active (remove1 vc (g_vc_list s) ! unat k) k
              ((mtx_lock G_VC_LOCK s)\<lparr>g_vc_list := remove1 vc (g_vc_list s),
                 g_vc_count := g_vc_count s - 1,
                 g_active_vc := None, g_active_vc_index := k\<rparr>))))"
proof -
  let ?rest = "remove1 vc (g_vc_list s)"
  define c where "c = g_vc_count s - 1"
  define sl where "sl = mtx_lock G_VC_LOCK s"
  have sl_fields: "g_vc_list sl = g_vc_list s" "g_vc_count sl = g_vc_count s"
    "g_active_vc_index sl = g_active_vc_index s" "heap sl = heap s"
    by (simp_all add: sl_def mtx_lock_def)
  have lr: "length ?rest = length (g_vc_list s) - 1" using mem by (simp add: length_remove1)
  have pos: "0 < length ?rest" using rest by simp
  have "g_vc_count s \<noteq> 0" using cnt len pos lr
    by (metis less_nat_zero_code unat_of_nat32 unsigned_0 zero_diff)
  then have uc: "unat c = length ?rest"
    using cnt len lr by (simp add: c_def unat_minus_one unat_of_nat32)
  define k where "k = (if g_active_vc_index s \<ge> c then c - 1 else g_active_vc_index s)"
  have c0: "c \<noteq> 0" using uc pos by (metis less_nat_zero_code unsigned_0)
  have uk: "unat k = min (unat (g_active_vc_index s)) (length ?rest - 1)"
    using uc c0 by (auto simp: k_def word_le_nat_alt unat_minus_one)
  have klt: "unat k < length ?rest"
    using uk rest by (cases "remove1 vc (g_vc_list s)") (auto simp: min_def)
  define s2 where "s2 = sl\<lparr>g_vc_list := ?rest, g_vc_count := c,
               g_active_vc := None, g_active_vc_index := k\<rparr>"
  have fxp: "release_fixup (g_vc_list s2) 0 s2 = vc_set_active (?rest ! unat k) k s2"
    using klt by (simp add: release_fixup_none s2_def)
  have "vc_device_release vc s =
     (NO_ERROR, vc_device_render (?rest ! unat k)
        (mtx_unlock G_VC_LOCK (vc_set_active (?rest ! unat k) k s2)))"
  proof (cases "g_active_vc_index s \<ge> c")
    case True
    then have "s2 = sl\<lparr>g_vc_list := ?rest, g_vc_count := c,
               g_active_vc := None, g_active_vc_index := c - 1\<rparr>"
      by (simp add: s2_def k_def)
    with True fxp act show ?thesis
      by (simp add: vc_device_release_def Let_def sl_fields mtx_unlock_def flip: c_def sl_def)
  next
    case False
    then have "s2 = sl\<lparr>g_vc_list := ?rest, g_vc_count := c, g_active_vc := None\<rparr>"
      by (simp add: s2_def k_def sl_fields(3) [symmetric])
    with False fxp act show ?thesis
      by (simp add: vc_device_release_def Let_def sl_fields mtx_unlock_def flip: c_def sl_def)
  qed
  with uk show ?thesis unfolding s2_def c_def sl_def by blast
qed

lemma reg_inv_release:
  assumes inv: "reg_inv s" and mem: "vc \<in> set (g_vc_list s)"
  shows "reg_inv (snd (vc_device_release vc s))"
proof -
  let ?xs = "g_vc_list s"
  let ?rest = "remove1 vc ?xs"
  have dist: "distinct ?xs" and len: "length ?xs < 2 ^ 32"
    and cnt: "g_vc_count s = of_nat (length ?xs)"
    and flags: "\<forall>d \<in> set ?xs. active (heap s d) \<longleftrightarrow> g_active_vc s = Some d"
    using inv by (auto simp: reg_inv_def)
  have pos: "0 < length ?xs" using mem by (cases ?xs) auto
  have lr: "length ?rest = length ?xs - 1" using mem by (simp add: length_remove1)
  have cnt': "g_vc_count s - 1 = of_nat (length ?rest)"
    using cnt pos lr by (simp add: of_nat_pred32)
  have drest: "distinct ?rest" using dist by simp
  have lrest: "length ?rest < 2 ^ 32" using len lr by simp
  have sub: "\<And>d. d \<in> set ?rest \<Longrightarrow> d \<in> set ?xs \<and> d \<noteq> vc"
    using dist by auto
  show ?thesis
  proof (cases "active (heap s vc)")
    case True
    then have av: "g_active_vc s = Some vc" using flags mem by auto
    show ?thesis
    proof (cases "?rest = []")
      case True
      with \<open>active (heap s vc)\<close> cnt' show ?thesis
        by (simp add: vc_device_release_def Let_def reg_inv_def mtx_lock_def mtx_unlock_def)
    next
      case False
      from release_active_eq [OF len cnt mem True False]
      obtain k where uk: "unat k = min (unat (g_active_vc_index s)) (length ?rest - 1)"
        and rel: "vc_device_release vc s =
          (NO_ERROR,
           vc_device_render (?rest ! unat k)
            (mtx_unlock G_VC_LOCK
             (vc_set_active (?rest ! unat k) k
                ((mtx_lock G_VC_LOCK s)\<lparr>g_vc_list := ?rest, g_vc_count := g_vc_count s - 1,
                   g_active_vc := None, g_active_vc_index := k\<rparr>))))"
        by blast
      define s2 where "s2 = (mtx_lock G_VC_LOCK s)\<lparr>g_vc_list := ?rest,
                   g_vc_count := g_vc_count s - 1,
                   g_active_vc := None, g_active_vc_index := k\<rparr>"
      have klt: "unat k < length (g_vc_list s2)"
        using uk False by (cases ?rest) (auto simp: min_def s2_def)
      have "reg_inv (vc_set_active (g_vc_list s2 ! unat k) (of_nat (unat k)) s2)"
      proof (rule reg_inv_vc_set_active)
        show "distinct (g_vc_list s2)" using drest by (simp add: s2_def)
        show "length (g_vc_list s2) < 2 ^ 32" using lrest by (simp add: s2_def)
        show "g_vc_count s2 = of_nat (length (g_vc_list s2))" using cnt' by (simp add: s2_def)
        show "\<forall>d\<in>set (g_vc_list s2). active (heap s2 d) = (g_active_vc s2 = Some d)"
        proof
          fix d assume "d \<in> set (g_vc_list s2)"
          then have "d \<in> set ?rest" by (simp add: s2_def)
          then have "d \<in> set ?xs" "d \<noteq> vc" using sub by blast+
          then have "\<not> active (heap s d)" using flags av by simp
          then show "active (heap s2 d) = (g_active_vc s2 = Some d)"
            by (simp add: s2_def mtx_lock_def)
        qed
        show "unat k < length (g_vc_list s2)" by (rule klt)
      qed
      then show ?thesis
        using rel by (simp add: s2_def mtx_unlock_def vc_device_render_def)
    qed
  next
    case False
    obtain a where a: "g_active_vc s = Some a"
      using inv mem by (cases "g_active_vc s") (auto simp: reg_inv_def)
    have "a \<in> set ?xs" using inv a by (auto simp: reg_inv_def)
    moreover have "a \<noteq> vc" using False flags mem a by auto
    ultimately have ar: "a \<in> set ?rest" by simp
    let ?j = "length (takeWhile (\<lambda>x. x \<noteq> a) ?rest)"
    have j: "?j < length ?rest" "?rest ! ?j = a" using takeWhile_index [OF ar] by auto
    have rel: "vc_device_release vc s =
       (NO_ERROR, vc_device_render a (mtx_unlock G_VC_LOCK
          ((mtx_lock G_VC_LOCK s)\<lparr>g_vc_list := ?rest, g_vc_count := g_vc_count s - 1,
              g_active_vc_index := of_nat ?j\<rparr>)))"
      using False a ar
      by (simp add: vc_device_release_def Let_def release_fixup_some mtx_lock_def mtx_unlock_def)
    have "unat (of_nat ?j :: 32 word) = ?j" using j(1) lrest by (simp add: unat_of_nat32)
    moreover have "\<forall>d\<in>set ?rest. active (heap s d) = (g_active_vc s = Some d)"
      using sub flags by blast
    ultimately have "reg_inv ((mtx_lock G_VC_LOCK s)\<lparr>g_vc_list := ?rest,
        g_vc_count := g_vc_count s - 1, g_active_vc_index := of_nat ?j\<rparr>)"
      using j drest lrest cnt' a by (simp add: reg_inv_def mtx_lock_def)
    then show ?thesis using rel by (simp add: mtx_unlock_def vc_device_render_def)
  qed
qed

lemma reg_inv_apply_op:
  assumes "reg_inv s" "op_allowed x s"
  shows "\<exists>s'. apply_op x s = Inr s' \<and> reg_inv s'"
proof (cases x)
  case (ConsoleOpen alloc add)
  have "case alloc of Inl st \<Rightarrow> True
        | Inr d \<Rightarrow> d \<notin> set (g_vc_list s) \<and> Suc (length (g_vc_list s)) < 2 ^ 32"
    using assms(2) ConsoleOpen by (cases alloc) auto
  from reg_inv_root_open [OF assms(1) this, of add]
  show ?thesis using ConsoleOpen by auto
next
  case (ConsoleClose vc)
  then show ?thesis using assms reg_inv_release by simp
next
  case (SetActive dev)
  then show ?thesis using assms reg_inv_set_console_to_active by simp
next
  case (SetActiveByIndex i)
  from reg_inv_set_active_console [OF assms(1), of i]
  show ?thesis using SetActiveByIndex by auto
qed

lemma reg_inv_run:
  "reg_inv s \<Longrightarrow> allowed ops s \<Longrightarrow> \<exists>s'. run ops s = Inr s' \<and> reg_inv s'"
proof (induction ops arbitrary: s)
  case Nil
  then show ?case by simp
next
  case (Cons x xs)
  from Cons.prems have ok: "op_allowed x s" by simp
  from reg_inv_apply_op [OF Cons.prems(1) ok]
  obtain s1 where s1: "apply_op x s = Inr s1" "reg_inv s1" by blast
  with Cons.prems have "allowed xs s1" by simp
  from Cons.IH [OF s1(2) this] s1(1) show ?case by simp
qed

lemma reg_inv_init: "reg_inv (vc_init h dm)"
  by (simp add: reg_inv_def vc_init_def)

lemma filter_eq_single:
  "distinct xs \<Longrightarrow> a \<in> set xs \<Longrightarrow> filter (\<lambda>d. a = d) xs = [a]"
  by (induction xs) (auto simp: filter_empty_conv)

lemma reg_inv_registry_invariant:
  assumes "reg_inv s"
  shows "registry_invariant s"
proof -
  let ?xs = "g_vc_list s"
  have dist: "distinct ?xs" and len: "length ?xs < 2 ^ 32"
    and cnt: "g_vc_count s = of_nat (length ?xs)"
    and flags: "\<forall>d \<in> set ?xs. active (heap s d) \<longleftrightarrow> g_active_vc s = Some d"
    using assms by (auto simp: reg_inv_def)
  have ucnt: "unat (g_vc_count s) = length ?xs" using cnt len by (simp add: unat_of_nat32)
  show ?thesis
  proof (cases "g_vc_count s = 0")
    case True
    then have "?xs = []" using ucnt by simp
    then show ?thesis using True assms by (auto simp: registry_invariant_def reg_inv_def split: option.splits)
  next
    case False
    then have ne: "?xs \<noteq> []" using cnt by auto
    then obtain a where a: "g_active_vc s = Some a"
      using assms by (cases "g_active_vc s") (auto simp: reg_inv_def)
    have idx: "unat (g_active_vc_index s) < length ?xs" "?xs ! unat (g_active_vc_index s) = a"
      using assms a by (auto simp: reg_inv_def)
    then have mem: "a \<in> set ?xs" by (metis nth_mem)
    have "filter (\<lambda>d. active (heap s d)) ?xs = filter (\<lambda>d. a = d) ?xs"
      using flags a by (intro filter_cong) auto
    then have "filter (\<lambda>d. active (heap s d)) ?xs = [a]"
      using filter_eq_single [OF dist mem] by simp
    moreover have "g_active_vc_index s < g_vc_count s"
      using idx(1) ucnt by (simp add: word_less_nat_alt)
    ultimately show ?thesis using False a by (simp add: registry_invariant_def)
  qed
qed

text \<open>
  Claim C1. In every registry state reached by console-open, console-close, set-active and
  set-active-by-index from the initial registry, no operation runs into undefined behaviour
  and the invariant of the specification holds: when the count is 0 there is no active
  handle and no registered instance is marked active; when the count is not 0 exactly one
  registered instance is marked active, the active handle points to it, and the active
  index is below the count. The environment is as \<open>op_allowed\<close> says: the allocator
  returns an object that is not registered, only a registered console is closed, and the
  number of consoles stays below \<open>2 ^ 32\<close>, the range of the 32-bit count.
\<close>

theorem registry_invariant_reachable:
  assumes "allowed ops (vc_init h dm)"
  shows "\<exists>s. run ops (vc_init h dm) = Inr s \<and> registry_invariant s"
  using reg_inv_run [OF reg_inv_init assms] reg_inv_registry_invariant by blast

text \<open>The definitions that evaluate a run on a concrete registry.\<close>

lemmas registry_eval =
  vc_init_def dev0_def vc_root_open_def vc_device_release_def vc_set_console_to_active_def
  vc_set_active_console_def vc_set_active_def vc_device_alloc_def vc_device_render_def
  mtx_lock_def mtx_unlock_def emit_def Let_def VC_FLAG_HASINPUT_def registry_invariant_def

theorem registry_invariant_reachable_witness:
  "allowed [ConsoleOpen (Inr 7) NO_ERROR, ConsoleOpen (Inr 9) NO_ERROR,
            SetActive (Some 9), ConsoleClose 7] (vc_init (\<lambda>p. dev0) True) \<and>
   (\<exists>s. run [ConsoleOpen (Inr 7) NO_ERROR, ConsoleOpen (Inr 9) NO_ERROR,
             SetActive (Some 9), ConsoleClose 7] (vc_init (\<lambda>p. dev0) True) = Inr s \<and>
        registry_invariant s \<and> g_vc_list s = [9] \<and> g_vc_count s = 1 \<and>
        g_active_vc s = Some 9 \<and> g_active_vc_index s = 0)"
proof -
  let ?ops = "[ConsoleOpen (Inr 7) NO_ERROR, ConsoleOpen (Inr 9) NO_ERROR,
            SetActive (Some 9), ConsoleClose 7]"
  have a: "allowed ?ops (vc_init (\<lambda>p. dev0) True)"
    by (simp add: registry_eval)
  from registry_invariant_reachable [OF a]
  obtain s where s: "run ?ops (vc_init (\<lambda>p. dev0) True) = Inr s" "registry_invariant s"
    by blast
  have "g_vc_list s = [9] \<and> g_vc_count s = 1 \<and> g_active_vc s = Some 9 \<and> g_active_vc_index s = 0"
    using s(1) by (auto simp: registry_eval)
  with a s show ?thesis by blast
qed

text \<open>
  Claim C2. When the active instance is unregistered and other instances remain, the list
  is the old list without it, and the new active instance is the one at the pre-removal
  active index of the remaining list, or the last remaining instance when that index is
  past the end; it is marked active, the active index is its position, and it is rendered
  after the registry lock has been released. The hypotheses are that the count is the
  length of the list (below \<open>2 ^ 32\<close>) and that the instance is registered and marked
  active.
\<close>

theorem release_active_replacement:
  assumes "length (g_vc_list s) < 2 ^ 32"
    and "g_vc_count s = of_nat (length (g_vc_list s))"
    and "vc \<in> set (g_vc_list s)"
    and "active (heap s vc)"
    and "remove1 vc (g_vc_list s) \<noteq> []"
  shows "let rest = remove1 vc (g_vc_list s);
             s' = snd (vc_device_release vc s);
             n = (if unat (g_active_vc_index s) < length rest
                  then rest ! unat (g_active_vc_index s)
                  else rest ! (length rest - 1))
         in fst (vc_device_release vc s) = NO_ERROR \<and>
            g_vc_list s' = rest \<and>
            g_vc_count s' = of_nat (length rest) \<and>
            g_active_vc s' = Some n \<and>
            active (heap s' n) \<and>
            unat (g_active_vc_index s') = min (unat (g_active_vc_index s)) (length rest - 1) \<and>
            trace s' = trace s @ [MtxLock G_VC_LOCK, MtxUnlock G_VC_LOCK, Render n]"
proof -
  let ?rest = "remove1 vc (g_vc_list s)"
  from release_active_eq [OF assms]
  obtain k where uk: "unat k = min (unat (g_active_vc_index s)) (length ?rest - 1)"
    and rel: "vc_device_release vc s =
      (NO_ERROR,
       vc_device_render (?rest ! unat k)
        (mtx_unlock G_VC_LOCK
         (vc_set_active (?rest ! unat k) k
            ((mtx_lock G_VC_LOCK s)\<lparr>g_vc_list := ?rest, g_vc_count := g_vc_count s - 1,
               g_active_vc := None, g_active_vc_index := k\<rparr>))))"
    by blast
  have pos: "0 < length (g_vc_list s)" using assms(3) by (cases "g_vc_list s") auto
  have lr: "length ?rest = length (g_vc_list s) - 1" using assms(3) by (simp add: length_remove1)
  have cnt': "g_vc_count s - 1 = of_nat (length ?rest)"
    using assms(2) pos lr by (simp add: of_nat_pred32)
  have n: "(if unat (g_active_vc_index s) < length ?rest
            then ?rest ! unat (g_active_vc_index s)
            else ?rest ! (length ?rest - 1)) = ?rest ! unat k"
  proof (cases "unat (g_active_vc_index s) < length ?rest")
    case True
    then have "min (unat (g_active_vc_index s)) (length ?rest - 1) = unat (g_active_vc_index s)"
      by arith
    with uk True show ?thesis by simp
  next
    case False
    then have "min (unat (g_active_vc_index s)) (length ?rest - 1) = length ?rest - 1"
      by arith
    with uk False show ?thesis by simp
  qed
  show ?thesis
    unfolding Let_def n
    using uk cnt'
    by (simp add: rel vc_device_render_def mtx_unlock_def mtx_lock_def)
qed

theorem release_active_replacement_witness:
  "g_vc_list (snd (vc_device_release 2 abc_state)) = [1, 3] \<and>
   g_active_vc (snd (vc_device_release 2 abc_state)) = Some 3 \<and>
   active (heap (snd (vc_device_release 2 abc_state)) 3) \<and>
   g_active_vc_index (snd (vc_device_release 2 abc_state)) = 1 \<and>
   trace (snd (vc_device_release 2 abc_state)) =
     [MtxLock G_VC_LOCK, MtxUnlock G_VC_LOCK, Render 3]"
proof -
  have h: "length (g_vc_list abc_state) < 2 ^ 32"
      "g_vc_count abc_state = of_nat (length (g_vc_list abc_state))"
      "2 \<in> set (g_vc_list abc_state)"
      "active (heap abc_state 2)"
      "remove1 2 (g_vc_list abc_state) \<noteq> []"
    by (simp_all add: abc_state_def dev0_def)
  have u: "unat (g_active_vc_index (snd (vc_device_release 2 abc_state))) = 1 \<Longrightarrow>
           g_active_vc_index (snd (vc_device_release 2 abc_state)) = 1"
    by (metis unat_1 word_unat_eq_iff)
  from release_active_replacement [OF h] u show ?thesis
    by (simp add: Let_def abc_state_def)
qed

text \<open>
  Claim C4, on the control request of a handle. For the registry with the one console 1,
  which is active, \<^verbatim>\<open>vc_set_console_to_active\<close> returns success and leaves every field of
  the registry and of the console as it was, but it calls the renderer; the sibling
  \<^verbatim>\<open>vc_set_active_console\<close>, asked for the index of the same console, returns before and
  renders nothing.
\<close>

theorem set_console_to_active_rerenders:
  "fst (vc_set_console_to_active (Some 1) one_state) = NO_ERROR \<and>
   trace (snd (vc_set_console_to_active (Some 1) one_state)) =
     [MtxLock G_VC_LOCK, MtxUnlock G_VC_LOCK, Render 1] \<and>
   snd (vc_set_console_to_active (Some 1) one_state) =
     one_state\<lparr>trace := [MtxLock G_VC_LOCK, MtxUnlock G_VC_LOCK, Render 1]\<rparr> \<and>
   vc_set_active_console 0 one_state =
     Inr (NO_ERROR, one_state\<lparr>trace := [MtxLock G_VC_LOCK, MtxUnlock G_VC_LOCK]\<rparr>)"
  by (simp add: one_state_def registry_eval)

section \<open>Proofs: the translator\<close>

lemmas key_defs =
  HID_USAGE_KEY_ENTER_def HID_USAGE_KEY_KP_ENTER_def HID_USAGE_KEY_BACKSPACE_def
  HID_USAGE_KEY_TAB_def HID_USAGE_KEY_ESC_def HID_USAGE_KEY_UP_def HID_USAGE_KEY_DOWN_def
  HID_USAGE_KEY_RIGHT_def HID_USAGE_KEY_LEFT_def HID_USAGE_KEY_HOME_def HID_USAGE_KEY_END_def
  HID_USAGE_KEY_DELETE_def HID_USAGE_KEY_PAGEUP_def HID_USAGE_KEY_PAGEDOWN_def
  HID_USAGE_KEY_F1_def HID_USAGE_KEY_F10_def HID_USAGE_KEY_F11_def

lemmas mod_defs =
  MOD_SHIFT_def MOD_ALT_def MOD_CTRL_def MOD_LSHIFT_def MOD_RSHIFT_def MOD_LALT_def
  MOD_RALT_def MOD_LCTRL_def MOD_RCTRL_def

lemma length4_cases:
  assumes "length (buf :: 'a list) = 4"
  obtains a b c d where "buf = [a, b, c, d]"
  using assms by (auto simp: length_Suc_conv eval_nat_numeral)

lemma ansi_bytes_any_buffer:
  assumes "length buf = 4"
  shows "(case hid_key_to_ansi_code keycode m km buf 4 of (n, out) \<Rightarrow> take n out) =
         ansi_bytes keycode m km"
proof -
  from assms obtain a b c d where "buf = [a, b, c, d]" by (rule length4_cases)
  then show ?thesis
    by (simp add: ansi_bytes_def hid_key_to_ansi_code_def Let_def)
qed

lemma ansi_bytes_char:
  assumes "hid_map_key keycode (m AND MOD_SHIFT \<noteq> 0) km \<noteq> 0"
  shows "ansi_bytes keycode m km =
     (if m AND MOD_CTRL \<noteq> 0
      then [hid_map_key keycode (m AND MOD_SHIFT \<noteq> 0) km
              - (if m AND MOD_SHIFT \<noteq> 0 then 0x41 else 0x61) + 1]
      else [hid_map_key keycode (m AND MOD_SHIFT \<noteq> 0) km])"
  using assms by (simp add: ansi_bytes_def hid_key_to_ansi_code_def Let_def)

lemma ansi_bytes_special:
  assumes "hid_map_key keycode (m AND MOD_SHIFT \<noteq> 0) km = 0"
  shows "ansi_bytes keycode m km =
     (if keycode = HID_USAGE_KEY_ENTER \<or> keycode = HID_USAGE_KEY_KP_ENTER then [0x0a]
      else if keycode = HID_USAGE_KEY_BACKSPACE then [0x08]
      else if keycode = HID_USAGE_KEY_TAB then [0x09]
      else if keycode = HID_USAGE_KEY_ESC then [0x1b]
      else if keycode = HID_USAGE_KEY_UP then [0x1b, 0x5b, 0x41]
      else if keycode = HID_USAGE_KEY_DOWN then [0x1b, 0x5b, 0x42]
      else if keycode = HID_USAGE_KEY_RIGHT then [0x1b, 0x5b, 0x43]
      else if keycode = HID_USAGE_KEY_LEFT then [0x1b, 0x5b, 0x44]
      else if keycode = HID_USAGE_KEY_HOME then [0x1b, 0x5b, 0x48]
      else if keycode = HID_USAGE_KEY_END then [0x1b, 0x5b, 0x46]
      else if keycode = HID_USAGE_KEY_DELETE then [0x1b, 0x5b, 0x33, 0x7e]
      else if keycode = HID_USAGE_KEY_PAGEUP then [0x1b, 0x5b, 0x35, 0x7e]
      else if keycode = HID_USAGE_KEY_PAGEDOWN then [0x1b, 0x5b, 0x36, 0x7e]
      else [])"
  using assms by (simp add: ansi_bytes_def hid_key_to_ansi_code_def Let_def)

text \<open>
  Claim C5. The translator, called as the driver calls it, is a function of the key code,
  the modifiers and the keymap alone (the bytes it returns do not depend on what the
  four-byte buffer held). With \<open>ch\<close> the character that the keymap yields for the key code
  and the shift state: when \<open>ch\<close> is not 0, the result is the one byte \<open>ch - 'a' + 1\<close>
  under CTRL without SHIFT, the one byte \<open>ch - 'A' + 1\<close> under CTRL with SHIFT, and the one
  byte \<open>ch\<close> without CTRL (the keymap is asked first); when the keymap yields no character,
  Up gives the three bytes ESC, bracket, \<open>A\<close>, Delete gives the four bytes ESC, bracket,
  \<open>3\<close>, tilde, and a key code outside the special-key table gives no byte.
\<close>

theorem translator_table:
  "(\<forall>buf. length buf = 4 \<longrightarrow>
      (case hid_key_to_ansi_code keycode m km buf 4 of (n, out) \<Rightarrow> take n out) =
        ansi_bytes keycode m km) \<and>
   (hid_map_key HID_USAGE_KEY_UP (m AND MOD_SHIFT \<noteq> 0) km = 0 \<longrightarrow>
      ansi_bytes HID_USAGE_KEY_UP m km = [0x1b, 0x5b, 0x41]) \<and>
   (hid_map_key HID_USAGE_KEY_DELETE (m AND MOD_SHIFT \<noteq> 0) km = 0 \<longrightarrow>
      ansi_bytes HID_USAGE_KEY_DELETE m km = [0x1b, 0x5b, 0x33, 0x7e]) \<and>
   (\<forall>ch. ch = hid_map_key keycode (m AND MOD_SHIFT \<noteq> 0) km \<and> ch \<noteq> 0 \<longrightarrow>
      (m AND MOD_CTRL \<noteq> 0 \<and> m AND MOD_SHIFT = 0 \<longrightarrow>
         ansi_bytes keycode m km = [ch - 0x61 + 1]) \<and>
      (m AND MOD_CTRL \<noteq> 0 \<and> m AND MOD_SHIFT \<noteq> 0 \<longrightarrow>
         ansi_bytes keycode m km = [ch - 0x41 + 1]) \<and>
      (m AND MOD_CTRL = 0 \<longrightarrow> ansi_bytes keycode m km = [ch])) \<and>
   (hid_map_key keycode (m AND MOD_SHIFT \<noteq> 0) km = 0 \<and> keycode \<notin> set special_keys \<longrightarrow>
      ansi_bytes keycode m km = [])"
proof (intro conjI allI impI)
  fix buf :: "8 word list"
  assume "length buf = 4"
  then show "(case hid_key_to_ansi_code keycode m km buf 4 of (n, out) \<Rightarrow> take n out) =
        ansi_bytes keycode m km"
    by (rule ansi_bytes_any_buffer)
next
  assume "hid_map_key HID_USAGE_KEY_UP (m AND MOD_SHIFT \<noteq> 0) km = 0"
  then show "ansi_bytes HID_USAGE_KEY_UP m km = [0x1b, 0x5b, 0x41]"
    by (simp add: ansi_bytes_special) (simp add: key_defs)
next
  assume "hid_map_key HID_USAGE_KEY_DELETE (m AND MOD_SHIFT \<noteq> 0) km = 0"
  then show "ansi_bytes HID_USAGE_KEY_DELETE m km = [0x1b, 0x5b, 0x33, 0x7e]"
    by (simp add: ansi_bytes_special) (simp add: key_defs)
next
  fix ch
  assume a: "ch = hid_map_key keycode (m AND MOD_SHIFT \<noteq> 0) km \<and> ch \<noteq> 0"
    and b: "m AND MOD_CTRL \<noteq> 0 \<and> m AND MOD_SHIFT = 0"
  from a have "hid_map_key keycode (m AND MOD_SHIFT \<noteq> 0) km \<noteq> 0" by blast
  from ansi_bytes_char [OF this] a b show "ansi_bytes keycode m km = [ch - 0x61 + 1]"
    by simp
next
  fix ch
  assume a: "ch = hid_map_key keycode (m AND MOD_SHIFT \<noteq> 0) km \<and> ch \<noteq> 0"
    and b: "m AND MOD_CTRL \<noteq> 0 \<and> m AND MOD_SHIFT \<noteq> 0"
  from a have "hid_map_key keycode (m AND MOD_SHIFT \<noteq> 0) km \<noteq> 0" by blast
  from ansi_bytes_char [OF this] a b show "ansi_bytes keycode m km = [ch - 0x41 + 1]"
    by simp
next
  fix ch
  assume a: "ch = hid_map_key keycode (m AND MOD_SHIFT \<noteq> 0) km \<and> ch \<noteq> 0"
    and b: "m AND MOD_CTRL = 0"
  from a have "hid_map_key keycode (m AND MOD_SHIFT \<noteq> 0) km \<noteq> 0" by blast
  from ansi_bytes_char [OF this] a b show "ansi_bytes keycode m km = [ch]"
    by simp
next
  assume "hid_map_key keycode (m AND MOD_SHIFT \<noteq> 0) km = 0 \<and> keycode \<notin> set special_keys"
  then show "ansi_bytes keycode m km = []"
    by (simp add: ansi_bytes_special special_keys_def)
qed

theorem translator_table_witness:
  "ansi_bytes HID_USAGE_KEY_UP 0 keymap_a = [0x1b, 0x5b, 0x41] \<and>
   ansi_bytes HID_USAGE_KEY_DELETE 0 keymap_a = [0x1b, 0x5b, 0x33, 0x7e] \<and>
   ansi_bytes 4 MOD_LCTRL keymap_a = [1] \<and>
   ansi_bytes 4 (MOD_LCTRL OR MOD_LSHIFT) keymap_a = [1] \<and>
   ansi_bytes 4 0 keymap_a = [0x61] \<and>
   ansi_bytes 0x39 0 keymap_a = [] \<and>
   (case hid_key_to_ansi_code HID_USAGE_KEY_UP 0 keymap_a [9, 9, 9, 9] 4 of
      (n, out) \<Rightarrow> take n out) = [0x1b, 0x5b, 0x41]"
  using translator_table [where keycode = HID_USAGE_KEY_UP and m = 0 and km = keymap_a]
    translator_table [where keycode = 4 and m = MOD_LCTRL and km = keymap_a]
    translator_table [where keycode = 4 and m = "MOD_LCTRL OR MOD_LSHIFT" and km = keymap_a]
    translator_table [where keycode = 4 and m = 0 and km = keymap_a]
    translator_table [where keycode = "0x39" and m = 0 and km = keymap_a]
  by (simp add: hid_map_key_def keymap_a_def key_defs mod_defs special_keys_def)

text \<open>
  Claim C10. The translator produces output only for a buffer of exactly four bytes: for
  every other buffer size, whatever the key code, the modifiers and the keymap, it returns
  length 0 and leaves the buffer as it was.
\<close>

theorem translator_needs_four_bytes:
  "buf_size \<noteq> 4 \<Longrightarrow> hid_key_to_ansi_code keycode m km buf buf_size = (0, buf)"
  by (simp add: hid_key_to_ansi_code_def)

theorem translator_needs_four_bytes_witness:
  "(3 :: nat) \<noteq> 4 \<and>
   hid_key_to_ansi_code HID_USAGE_KEY_ENTER 0 keymap_a [7, 7, 7] 3 = (0, [7, 7, 7]) \<and>
   hid_key_to_ansi_code 4 0 keymap_a [7, 7, 7, 7, 7] 5 = (0, [7, 7, 7, 7, 7]) \<and>
   hid_key_to_ansi_code HID_USAGE_KEY_UP 0 keymap_a [7, 7, 7, 7, 7, 7, 7, 7] 8 =
     (0, [7, 7, 7, 7, 7, 7, 7, 7]) \<and>
   hid_key_to_ansi_code HID_USAGE_KEY_ENTER 0 keymap_a [7, 7, 7, 7] 4 = (1, [0x0a, 7, 7, 7])"
  using translator_needs_four_bytes [of 3 HID_USAGE_KEY_ENTER 0 keymap_a "[7, 7, 7]"]
    translator_needs_four_bytes [of 5 4 0 keymap_a "[7, 7, 7, 7, 7]"]
    translator_needs_four_bytes [of 8 HID_USAGE_KEY_UP 0 keymap_a "[7, 7, 7, 7, 7, 7, 7, 7]"]
  by (simp add: hid_key_to_ansi_code_def hid_map_key_def keymap_a_def key_defs)

section \<open>Proofs: key presses and the FIFO\<close>

lemma set_active_console_fifo:
  assumes "vc_set_active_console c s = Inr (st, s')"
  shows "fifo (heap s' d) = fifo (heap s d)"
  using assms
  by (auto simp: vc_set_active_console_def Let_def mtx_lock_def mtx_unlock_def
      vc_device_render_def split: if_splits option.splits)

lemma handled_Inr:
  "handled r = Inr (b, s') \<longleftrightarrow> b \<and> (\<exists>st. r = Inr (st, s'))"
  by (auto simp: handled_def split: sum.splits)

lemma control_keys_not_handled:
  assumes "vc_handle_control_keys keycode m s = Inr (False, s')"
  shows "s' = s"
  using assms
  by (auto simp: vc_handle_control_keys_def handled_Inr split: if_splits option.splits)

lemma control_keys_fifo:
  assumes "vc_handle_control_keys keycode m s = Inr (b, s')"
  shows "fifo (heap s' d) = fifo (heap s d)"
  using assms
  by (auto simp: vc_handle_control_keys_def handled_Inr vc_device_set_fullscreen_def
      vc_device_scroll_viewport_def set_active_console_fifo
      split: if_splits option.splits)

lemma key_press_not_handled:
  assumes nh: "vc_handle_control_keys keycode m s = Inr (False, s)"
    and a: "g_active_vc s = Some a"
  shows "\<exists>s'. vc_handle_key_press keycode m s = Inr s' \<and>
     content (fifo (heap s' a)) =
       (if fifo_free (fifo (heap s a)) < length (ansi_bytes keycode m (keymap (heap s a)))
        then content (fifo (heap s a))
        else content (fifo (heap s a)) @ ansi_bytes keycode m (keymap (heap s a))) \<and>
     capacity (fifo (heap s' a)) = capacity (fifo (heap s a)) \<and>
     (\<forall>d. d \<noteq> a \<longrightarrow> heap s' d = heap s d)"
proof -
  obtain len outp where ho:
    "hid_key_to_ansi_code keycode m (keymap (heap s a)) [0, 0, 0, 0] 4 = (len, outp)"
    by (cases "hid_key_to_ansi_code keycode m (keymap (heap s a)) [0, 0, 0, 0] 4")
  then have ab: "ansi_bytes keycode m (keymap (heap s a)) = take len outp"
    by (simp add: ansi_bytes_def)
  have lo: "length outp = 4"
    using ho by (auto simp: hid_key_to_ansi_code_def Let_def split: if_splits)
  have l4: "len \<le> 4"
    using ho by (auto simp: hid_key_to_ansi_code_def Let_def split: if_splits)
  have ll: "length (take len outp) = len" using lo l4 by simp
  show ?thesis
    using nh a ho ll
    by (cases "len = 0")
       (auto simp: vc_handle_key_press_def Let_def mtx_lock_def mtx_unlock_def ab
          mx_hid_fifo_write_def mx_hid_fifo_size_def fifo_free_def)
qed

lemma isl_handled [simp]: "isl (handled r) = isl r"
  by (cases r) (auto simp: handled_def)

lemma control_keys_total:
  assumes "reg_inv s" and "g_active_vc s = Some a"
  shows "\<exists>b s1. vc_handle_control_keys keycode m s = Inr (b, s1)"
proof -
  have sac [simp]: "\<And>c. \<not> isl (vc_set_active_console c s)"
    using reg_inv_set_active_console [OF assms(1)] by (metis sum.disc(2))
  have "\<not> isl (vc_handle_control_keys keycode m s)"
    unfolding vc_handle_control_keys_def using assms(2) by simp
  then show ?thesis by (cases "vc_handle_control_keys keycode m s") auto
qed

text \<open>
  Claim C3. A key press on a well-formed registry with an active console returns, and
  every FIFO is afterwards either what it was or what it was followed by the whole byte
  sequence of the key: when the free space of the FIFO is less than the length of the
  sequence the FIFO is unchanged, and when the key press is not a control key and the
  sequence fits, the FIFO of the active console is the old contents followed by the whole
  sequence. No FIFO ever holds a part of a sequence.
\<close>


theorem keystroke_write_all_or_nothing:
  assumes "reg_inv s" and "g_active_vc s = Some a"
  shows "\<exists>s'. vc_handle_key_press keycode m s = Inr s' \<and>
     (\<forall>d. let f = fifo (heap s d);
              bytes = ansi_bytes keycode m (keymap (heap s d));
              q' = content (fifo (heap s' d))
          in (q' = content f \<or> q' = content f @ bytes) \<and>
             (fifo_free f < length bytes \<longrightarrow> q' = content f) \<and>
             (d = a \<and> vc_handle_control_keys keycode m s = Inr (False, s) \<and>
                length bytes \<le> fifo_free f \<longrightarrow> q' = content f @ bytes))"
proof -
  from control_keys_total [OF assms]
  obtain b s1 where ck: "vc_handle_control_keys keycode m s = Inr (b, s1)" by blast
  show ?thesis
  proof (cases b)
    case True
    then have kp: "vc_handle_key_press keycode m s = Inr s1"
      using ck by (simp add: vc_handle_key_press_def)
    have "\<forall>d. fifo (heap s1 d) = fifo (heap s d)"
      using control_keys_fifo [OF ck] by simp
    then show ?thesis using kp ck True by (auto simp: Let_def)
  next
    case False
    with ck have "vc_handle_control_keys keycode m s = Inr (False, s1)" by simp
    then have s1: "s1 = s" by (rule control_keys_not_handled)
    with ck False have nh: "vc_handle_control_keys keycode m s = Inr (False, s)" by simp
    from key_press_not_handled [OF nh assms(2)]
    obtain s' where kp: "vc_handle_key_press keycode m s = Inr s'"
      and q: "content (fifo (heap s' a)) =
       (if fifo_free (fifo (heap s a)) < length (ansi_bytes keycode m (keymap (heap s a)))
        then content (fifo (heap s a))
        else content (fifo (heap s a)) @ ansi_bytes keycode m (keymap (heap s a)))"
      and other: "\<forall>d. d \<noteq> a \<longrightarrow> heap s' d = heap s d"
      by blast
    have "\<And>d. let f = fifo (heap s d);
              bytes = ansi_bytes keycode m (keymap (heap s d));
              q' = content (fifo (heap s' d))
          in (q' = content f \<or> q' = content f @ bytes) \<and>
             (fifo_free f < length bytes \<longrightarrow> q' = content f) \<and>
             (d = a \<and> vc_handle_control_keys keycode m s = Inr (False, s) \<and>
                length bytes \<le> fifo_free f \<longrightarrow> q' = content f @ bytes)"
    proof -
      fix d
      show "?thesis d"
      proof (cases "d = a")
        case True
        then show ?thesis using q by (simp add: Let_def)
      next
        case False
        then show ?thesis using other by (simp add: Let_def)
      qed
    qed
    with kp show ?thesis by blast
  qed
qed


lemmas key_eval =
  vc_handle_key_press_def vc_handle_control_keys_def hid_key_to_ansi_code_def hid_map_key_def
  mx_hid_fifo_write_def mx_hid_fifo_size_def fifo_free_def ansi_bytes_def
  mtx_lock_def mtx_unlock_def emit_def Let_def dev0_def key_defs mod_defs


theorem keystroke_write_all_or_nothing_witness:
  "reg_inv tight_state \<and> g_active_vc tight_state = Some 1 \<and>
   length (ansi_bytes HID_USAGE_KEY_UP 0 (keymap (heap tight_state 1))) = 3 \<and>
   fifo_free (fifo (heap tight_state 1)) = 2 \<and>
   (\<exists>s'. vc_handle_key_press HID_USAGE_KEY_UP 0 tight_state = Inr s' \<and>
         content (fifo (heap s' 1)) = content (fifo (heap tight_state 1)))"
proof -
  have r: "reg_inv tight_state" and a: "g_active_vc tight_state = Some 1"
    by (simp_all add: reg_inv_def tight_state_def dev0_def)
  have l: "length (ansi_bytes HID_USAGE_KEY_UP 0 (keymap (heap tight_state 1))) = 3"
    and f: "fifo_free (fifo (heap tight_state 1)) = 2"
    by (simp_all add: tight_state_def key_eval)
  from keystroke_write_all_or_nothing [OF r a, of HID_USAGE_KEY_UP 0]
  obtain s' where "vc_handle_key_press HID_USAGE_KEY_UP 0 tight_state = Inr s'"
    and "let f = fifo (heap tight_state 1);
             bytes = ansi_bytes HID_USAGE_KEY_UP 0 (keymap (heap tight_state 1));
             q' = content (fifo (heap s' 1))
         in fifo_free f < length bytes \<longrightarrow> q' = content f"
    by (metis (no_types, lifting))
  then show ?thesis using r a l f by (auto simp: Let_def)
qed


text \<open>
  Claim C6, as amended. For every modifier state with a CTRL bit and an ALT bit, a press
  of Delete is handled by the control keys: the key press returns before the translator
  and the FIFO are reached, so the state is what it was (no console, FIFO, flag or signal
  changes, and no FIFO lock is taken), except that the request \<^verbatim>\<open>reboot\<close> is written to
  the control file of the device manager when that file can be opened. When it cannot be
  opened, nothing is written.
\<close>


theorem ctrl_alt_delete_intercepted:
  assumes "m AND MOD_CTRL \<noteq> 0" and "m AND MOD_ALT \<noteq> 0"
  shows "vc_handle_control_keys HID_USAGE_KEY_DELETE m s =
           Inr (True, if dmctl_opens s then emit (DmctlWrite ''reboot'') s else s) \<and>
         vc_handle_key_press HID_USAGE_KEY_DELETE m s =
           Inr (if dmctl_opens s then emit (DmctlWrite ''reboot'') s else s) \<and>
         (\<exists>s'. vc_handle_key_press HID_USAGE_KEY_DELETE m s = Inr s' \<and>
               heap s' = heap s \<and>
               trace s' = trace s @ (if dmctl_opens s then [DmctlWrite ''reboot''] else []))"
  using assms
  by (simp add: vc_handle_key_press_def vc_handle_control_keys_def key_defs)


theorem ctrl_alt_delete_intercepted_witness:
  "(MOD_LCTRL OR MOD_RALT) AND MOD_CTRL \<noteq> 0 \<and> (MOD_LCTRL OR MOD_RALT) AND MOD_ALT \<noteq> 0 \<and>
   vc_handle_key_press HID_USAGE_KEY_DELETE (MOD_LCTRL OR MOD_RALT) tight_state =
     Inr (tight_state\<lparr>trace := [DmctlWrite ''reboot'']\<rparr>)"
proof -
  have c: "(MOD_LCTRL OR MOD_RALT) AND MOD_CTRL \<noteq> 0"
    and a: "(MOD_LCTRL OR MOD_RALT) AND MOD_ALT \<noteq> 0"
    by (simp_all add: mod_defs)
  from ctrl_alt_delete_intercepted [OF c a, of tight_state] c a show ?thesis
    by (simp add: tight_state_def emit_def)
qed


text \<open>
  Claim C6, as stated, fails where the control file cannot be opened: with left CTRL and
  left ALT held, Delete is intercepted and the state is left exactly as it was, so no
  reboot request has been emitted.
\<close>


theorem ctrl_alt_delete_no_request:
  "(MOD_LCTRL OR MOD_LALT) AND MOD_CTRL \<noteq> 0 \<and> (MOD_LCTRL OR MOD_LALT) AND MOD_ALT \<noteq> 0 \<and>
   vc_handle_key_press HID_USAGE_KEY_DELETE (MOD_LCTRL OR MOD_LALT) no_dmctl_state =
     Inr no_dmctl_state \<and>
   DmctlWrite ''reboot'' \<notin> set (trace no_dmctl_state)"
  by (simp add: no_dmctl_state_def one_state_def key_eval)


section \<open>Proofs: reading a console\<close>


text \<open>
  Claim C9. A read of at most \<open>count\<close> bytes on a console takes the FIFO lock, drains the
  first \<open>count\<close> bytes of the FIFO (all of them when there are fewer) and releases the lock,
  in this order; no other console changes; the readability signal is lowered when the
  FIFO is empty after the drain and is untouched otherwise; and the result is the number
  of bytes drained, or the would-block status when no byte was drained.
\<close>


theorem vc_device_read_drains:
  "case vc_device_read dev count s of (r, bytes, s') \<Rightarrow>
     bytes = take count (content (fifo (heap s dev))) \<and>
     length bytes \<le> count \<and>
     content (fifo (heap s' dev)) = drop count (content (fifo (heap s dev))) \<and>
     (\<forall>d. d \<noteq> dev \<longrightarrow> heap s' d = heap s d) \<and>
     trace s' = trace s @
        [MtxLock (FIFO_LOCK dev), FifoRead dev count, MtxUnlock (FIFO_LOCK dev)] \<and>
     readable (heap s' dev) =
        (if content (fifo (heap s' dev)) = [] then False else readable (heap s dev)) \<and>
     r = (if bytes = [] then Inl ERR_SHOULD_WAIT else Inr (length bytes))"
  by (auto simp: vc_device_read_def mx_hid_fifo_read_def mx_hid_fifo_size_def Let_def
      mtx_lock_def mtx_unlock_def min_def)


theorem vc_device_read_drains_witness:
  "fst (vc_device_read 1 1 tight_state) = Inr 1 \<and>
   fst (snd (vc_device_read 1 1 tight_state)) = [0x61] \<and>
   content (fifo (heap (snd (snd (vc_device_read 1 1 tight_state))) 1)) = [0x62] \<and>
   readable (heap (snd (snd (vc_device_read 1 1 tight_state))) 1) \<and>
   fst (vc_device_read 1 5 tight_state) = Inr 2 \<and>
   fst (snd (vc_device_read 1 5 tight_state)) = [0x61, 0x62] \<and>
   \<not> readable (heap (snd (snd (vc_device_read 1 5 tight_state))) 1) \<and>
   fst (vc_device_read 1 5 one_state) = Inl ERR_SHOULD_WAIT \<and>
   heap (snd (snd (vc_device_read 1 5 tight_state))) 2 = heap tight_state 2"
  using vc_device_read_drains [where dev = 1 and count = 1 and s = tight_state]
    vc_device_read_drains [where dev = 1 and count = 5 and s = tight_state]
    vc_device_read_drains [where dev = 1 and count = 5 and s = one_state]
  by (auto simp: tight_state_def one_state_def dev0_def split: prod.splits)

section \<open>Proofs: key repeat\<close>

lemmas repeat_defs =
  LOW_REPEAT_KEY_FREQUENCY_MICRO_def HIGH_REPEAT_KEY_FREQUENCY_MICRO_def MX_TIME_INFINITE_def

lemma accelerate_unat:
  assumes "unat v * 3 < 2 ^ 64"
  shows "unat (accelerate v) = max (unat v * 3 div 4) 50000000"
proof -
  have "unat v * unat (3 :: 64 word) < 2 ^ LENGTH(64)" using assms by simp
  then have "unat (v * 3) = unat v * unat (3 :: 64 word)" by (simp only: unat_mult_lem)
  then have m: "unat (v * 3) = unat v * 3" by simp
  have d: "unat (v * 3 div 4) = unat v * 3 div 4" by (simp add: unat_div m)
  show ?thesis
    using d by (simp add: accelerate_def Let_def repeat_defs word_less_nat_alt max_def)
qed

lemma accelerate_bounds:
  assumes "HIGH_REPEAT_KEY_FREQUENCY_MICRO \<le> v" and "v \<le> LOW_REPEAT_KEY_FREQUENCY_MICRO"
  shows "unat (accelerate v) = max (unat v * 3 div 4) 50000000"
    and "accelerate v \<le> v"
    and "HIGH_REPEAT_KEY_FREQUENCY_MICRO \<le> accelerate v"
    and "accelerate v \<le> LOW_REPEAT_KEY_FREQUENCY_MICRO"
proof -
  have lo: "50000000 \<le> unat v" and hi: "unat v \<le> 250000000"
    using assms by (simp_all add: repeat_defs word_le_nat_alt)
  then have "unat v * 3 < 2 ^ 64" by simp
  then show u: "unat (accelerate v) = max (unat v * 3 div 4) 50000000"
    by (rule accelerate_unat)
  show "accelerate v \<le> v" using u lo by (simp add: word_le_nat_alt)
  show "HIGH_REPEAT_KEY_FREQUENCY_MICRO \<le> accelerate v"
    using u by (simp add: word_le_nat_alt repeat_defs)
  show "accelerate v \<le> LOW_REPEAT_KEY_FREQUENCY_MICRO"
    using u lo hi by (simp add: word_le_nat_alt repeat_defs)
qed

lemma next_interval_range:
  assumes "v = MX_TIME_INFINITE \<or>
           HIGH_REPEAT_KEY_FREQUENCY_MICRO \<le> v \<and> v \<le> LOW_REPEAT_KEY_FREQUENCY_MICRO"
    and "turn_possible t v"
    and "next_interval repeat_enabled t v = Some v'"
  shows "v' = MX_TIME_INFINITE \<or>
         HIGH_REPEAT_KEY_FREQUENCY_MICRO \<le> v' \<and> v' \<le> LOW_REPEAT_KEY_FREQUENCY_MICRO"
proof (cases t)
  case TimedOut
  then have "v \<noteq> MX_TIME_INFINITE" using assms(2) by simp
  with assms(1) have "HIGH_REPEAT_KEY_FREQUENCY_MICRO \<le> v" "v \<le> LOW_REPEAT_KEY_FREQUENCY_MICRO"
    by auto
  from accelerate_bounds(3,4) [OF this] show ?thesis using assms(3) TimedOut by auto
next
  case ReadFailed
  then show ?thesis using assms(3) by simp
next
  case ShortRead
  then show ?thesis using assms(3) by auto
next
  case NoActiveVc
  then show ?thesis using assms(3) by auto
next
  case (Report kp kr)
  then show ?thesis
    using assms(1,3) by (auto simp: Let_def repeat_defs split: if_splits)
qed

lemma interval_after_range:
  assumes "v = MX_TIME_INFINITE \<or>
           HIGH_REPEAT_KEY_FREQUENCY_MICRO \<le> v \<and> v \<le> LOW_REPEAT_KEY_FREQUENCY_MICRO"
    and "interval_after repeat_enabled turns v = Some v'"
  shows "v' = MX_TIME_INFINITE \<or>
         HIGH_REPEAT_KEY_FREQUENCY_MICRO \<le> v' \<and> v' \<le> LOW_REPEAT_KEY_FREQUENCY_MICRO"
  using assms
proof (induction turns arbitrary: v)
  case Nil
  then show ?case by simp
next
  case (Cons t ts)
  from Cons.prems(2) have p: "turn_possible t v" by (simp split: if_splits)
  with Cons.prems(2) obtain v1 where v1: "next_interval repeat_enabled t v = Some v1"
    and rest: "interval_after repeat_enabled ts v1 = Some v'"
    by (auto split: option.splits)
  from next_interval_range [OF Cons.prems(1) p v1] have
    "v1 = MX_TIME_INFINITE \<or>
     HIGH_REPEAT_KEY_FREQUENCY_MICRO \<le> v1 \<and> v1 \<le> LOW_REPEAT_KEY_FREQUENCY_MICRO" .
  from Cons.IH [OF this rest] show ?case .
qed

lemma floor_three_quarters: "\<lfloor>real n * 0.75\<rfloor> = int (n * 3 div 4)"
proof -
  have "real n * 0.75 = real (n * 3) / real 4" by simp
  then show ?thesis by (simp only: floor_divide_of_nat_eq)
qed

lemma accelerate_iterates:
  "accelerate 250000000 = 187500000"
  "accelerate 187500000 = 140625000"
  "accelerate 140625000 = 105468750"
  "accelerate 105468750 = 79101562"
  "accelerate 79101562 = 59326171"
  "accelerate 59326171 = 50000000"
  "accelerate 50000000 = 50000000"
  by (simp_all add: accelerate_def HIGH_REPEAT_KEY_FREQUENCY_MICRO_def)

lemma accelerate_six: "(accelerate ^^ 6) LOW_REPEAT_KEY_FREQUENCY_MICRO = HIGH_REPEAT_KEY_FREQUENCY_MICRO"
proof -
  have six: "(6 :: nat) = Suc (Suc (Suc (Suc (Suc (Suc 0)))))" by simp
  show ?thesis
    by (subst six)
       (simp add: accelerate_iterates funpow_swap1 LOW_REPEAT_KEY_FREQUENCY_MICRO_def
          HIGH_REPEAT_KEY_FREQUENCY_MICRO_def)
qed

lemma accelerate_stays:
  "(accelerate ^^ n) HIGH_REPEAT_KEY_FREQUENCY_MICRO = HIGH_REPEAT_KEY_FREQUENCY_MICRO"
  by (induction n) (simp_all add: accelerate_iterates HIGH_REPEAT_KEY_FREQUENCY_MICRO_def)

lemma accelerate_from_six:
  assumes "6 \<le> n"
  shows "(accelerate ^^ n) LOW_REPEAT_KEY_FREQUENCY_MICRO = HIGH_REPEAT_KEY_FREQUENCY_MICRO"
proof -
  from assms obtain k where n: "n = k + 6" by (metis add.commute le_Suc_ex)
  have "(accelerate ^^ (k + 6)) LOW_REPEAT_KEY_FREQUENCY_MICRO =
        (accelerate ^^ k) ((accelerate ^^ 6) LOW_REPEAT_KEY_FREQUENCY_MICRO)"
    by (simp only: funpow_add o_apply)
  then show ?thesis using n by (simp only: accelerate_six accelerate_stays)
qed

lemma accelerate_funpow_range:
  "HIGH_REPEAT_KEY_FREQUENCY_MICRO \<le> (accelerate ^^ n) LOW_REPEAT_KEY_FREQUENCY_MICRO \<and>
   (accelerate ^^ n) LOW_REPEAT_KEY_FREQUENCY_MICRO \<le> LOW_REPEAT_KEY_FREQUENCY_MICRO"
proof (induction n)
  case 0
  show ?case by (simp add: repeat_defs)
next
  case (Suc n)
  then show ?case using accelerate_bounds(3,4) by simp
qed

lemma accelerate_funpow_mono:
  "(accelerate ^^ Suc n) LOW_REPEAT_KEY_FREQUENCY_MICRO \<le>
   (accelerate ^^ n) LOW_REPEAT_KEY_FREQUENCY_MICRO"
  using accelerate_funpow_range [of n] accelerate_bounds(2) by simp

text \<open>
  Claim C7, as amended. In every run of the input thread, when the wait times out at the
  repeat interval \<open>v\<close>, the interval after the time-out is \<open>max \<lfloor>v * 0.75\<rfloor> HIGH_FREQ\<close>: the
  code multiplies by 3 and divides by 4 in unsigned 64-bit integers, without overflow,
  so the product is rounded down to a whole number; the new interval is not above \<open>v\<close> and
  not below \<open>HIGH_FREQ\<close>. Starting from the low-frequency value, one time-out gives exactly
  \<open>max (L * 0.75) HIGH_FREQ\<close> (187500000, no rounding), every further time-out does not
  increase the interval, after six time-outs it is \<open>HIGH_FREQ\<close>, and it stays there.
\<close>

theorem repeat_acceleration:
  assumes "interval_after repeat_enabled turns MX_TIME_INFINITE = Some v"
    and "turn_possible TimedOut v"
  shows "(\<exists>v'. next_interval repeat_enabled TimedOut v = Some v' \<and>
            unat v' = max (unat v * 3 div 4) (unat HIGH_REPEAT_KEY_FREQUENCY_MICRO) \<and>
            int (unat v') =
              max \<lfloor>real (unat v) * 0.75\<rfloor> (int (unat HIGH_REPEAT_KEY_FREQUENCY_MICRO)) \<and>
            v' \<le> v \<and> HIGH_REPEAT_KEY_FREQUENCY_MICRO \<le> v') \<and>
         real (unat (accelerate LOW_REPEAT_KEY_FREQUENCY_MICRO)) =
            max (real (unat LOW_REPEAT_KEY_FREQUENCY_MICRO) * 0.75)
                (real (unat HIGH_REPEAT_KEY_FREQUENCY_MICRO)) \<and>
         (\<forall>n. (accelerate ^^ Suc n) LOW_REPEAT_KEY_FREQUENCY_MICRO \<le>
                (accelerate ^^ n) LOW_REPEAT_KEY_FREQUENCY_MICRO) \<and>
         (\<forall>n. 6 \<le> n \<longrightarrow>
                (accelerate ^^ n) LOW_REPEAT_KEY_FREQUENCY_MICRO =
                HIGH_REPEAT_KEY_FREQUENCY_MICRO) \<and>
         accelerate HIGH_REPEAT_KEY_FREQUENCY_MICRO = HIGH_REPEAT_KEY_FREQUENCY_MICRO"
proof -
  have "MX_TIME_INFINITE = MX_TIME_INFINITE \<or>
        HIGH_REPEAT_KEY_FREQUENCY_MICRO \<le> MX_TIME_INFINITE \<and>
        MX_TIME_INFINITE \<le> LOW_REPEAT_KEY_FREQUENCY_MICRO"
    by simp
  from interval_after_range [OF this assms(1)] assms(2)
  have r: "HIGH_REPEAT_KEY_FREQUENCY_MICRO \<le> v" "v \<le> LOW_REPEAT_KEY_FREQUENCY_MICRO"
    by auto
  have u: "unat (accelerate v) = max (unat v * 3 div 4) 50000000"
    by (rule accelerate_bounds(1) [OF r])
  have uh: "unat HIGH_REPEAT_KEY_FREQUENCY_MICRO = 50000000"
    by (simp add: repeat_defs)
  have fl: "int (unat (accelerate v)) = max \<lfloor>real (unat v) * 0.75\<rfloor> 50000000"
  proof -
    have "int (unat (accelerate v)) = max (int (unat v * 3 div 4)) 50000000"
      by (simp only: u of_nat_max of_nat_numeral)
    then show ?thesis by (simp only: floor_three_quarters)
  qed
  have first: "\<exists>v'. next_interval repeat_enabled TimedOut v = Some v' \<and>
            unat v' = max (unat v * 3 div 4) (unat HIGH_REPEAT_KEY_FREQUENCY_MICRO) \<and>
            int (unat v') =
              max \<lfloor>real (unat v) * 0.75\<rfloor> (int (unat HIGH_REPEAT_KEY_FREQUENCY_MICRO)) \<and>
            v' \<le> v \<and> HIGH_REPEAT_KEY_FREQUENCY_MICRO \<le> v'"
  proof -
    have ni: "next_interval repeat_enabled TimedOut v = Some (accelerate v)" by simp
    have u': "unat (accelerate v) =
        max (unat v * 3 div 4) (unat HIGH_REPEAT_KEY_FREQUENCY_MICRO)"
      using u by (simp only: uh)
    have fl': "int (unat (accelerate v)) =
        max \<lfloor>real (unat v) * 0.75\<rfloor> (int (unat HIGH_REPEAT_KEY_FREQUENCY_MICRO))"
      using fl by (simp only: uh of_nat_numeral)
    from ni u' fl' accelerate_bounds(2,3) [OF r] show ?thesis by blast
  qed
  have low: "real (unat (accelerate LOW_REPEAT_KEY_FREQUENCY_MICRO)) =
            max (real (unat LOW_REPEAT_KEY_FREQUENCY_MICRO) * 0.75)
                (real (unat HIGH_REPEAT_KEY_FREQUENCY_MICRO))"
    by (simp add: repeat_defs accelerate_iterates)
  have stay: "accelerate HIGH_REPEAT_KEY_FREQUENCY_MICRO = HIGH_REPEAT_KEY_FREQUENCY_MICRO"
    by (simp add: repeat_defs accelerate_iterates)
  from first low stay accelerate_funpow_mono accelerate_from_six show ?thesis
    by blast
qed

theorem repeat_acceleration_witness:
  "interval_after True
     [Report [1, 0, 0, 0, 0, 0, 0, 0] [0, 0, 0, 0, 0, 0, 0, 0], TimedOut, TimedOut, TimedOut]
     MX_TIME_INFINITE = Some 105468750 \<and>
   turn_possible TimedOut 105468750 \<and>
   next_interval True TimedOut 105468750 = Some 79101562 \<and>
   int (unat (79101562 :: 64 word)) = max \<lfloor>real (unat (105468750 :: 64 word)) * 0.75\<rfloor> 50000000"
proof -
  have a: "interval_after True
     [Report [1, 0, 0, 0, 0, 0, 0, 0] [0, 0, 0, 0, 0, 0, 0, 0], TimedOut, TimedOut, TimedOut]
     MX_TIME_INFINITE = Some 105468750"
    by (simp add: repeat_defs accelerate_iterates)
  have b: "turn_possible TimedOut 105468750" by (simp add: repeat_defs)
  have c: "next_interval True TimedOut 105468750 = Some 79101562"
    by (simp add: accelerate_iterates)
  from repeat_acceleration [OF a b] c
  have "int (unat (79101562 :: 64 word)) =
        max \<lfloor>real (unat (105468750 :: 64 word)) * 0.75\<rfloor>
            (int (unat HIGH_REPEAT_KEY_FREQUENCY_MICRO))"
    by auto
  with a b c show ?thesis by (simp add: repeat_defs)
qed

text \<open>
  Claim C7, as stated, fails at the fourth time-out after a key press: the interval is
  105468750, three quarters of it are 79101562.5, and the code leaves 79101562.
\<close>

theorem repeat_acceleration_rounds_down:
  "interval_after True
     [Report [1, 0, 0, 0, 0, 0, 0, 0] [0, 0, 0, 0, 0, 0, 0, 0], TimedOut, TimedOut, TimedOut]
     MX_TIME_INFINITE = Some 105468750 \<and>
   next_interval True TimedOut 105468750 = Some 79101562 \<and>
   real (unat (79101562 :: 64 word)) \<noteq>
     max (real (unat (105468750 :: 64 word)) * 0.75)
         (real (unat HIGH_REPEAT_KEY_FREQUENCY_MICRO))"
  by (simp add: repeat_defs accelerate_iterates)

section \<open>Proofs: set-active on the active console\<close>

text \<open>On every well-formed registry the two set-active paths agree on the state they leave
  when the console asked for is the active one: nothing changes. They differ in the
  renderer: the path by index returns before it, the path by handle calls it.\<close>

lemma takeWhile_distinct_index:
  "distinct xs \<Longrightarrow> k < length xs \<Longrightarrow> length (takeWhile (\<lambda>x. x \<noteq> xs ! k) xs) = k"
proof (induction xs arbitrary: k)
  case Nil
  then show ?case by simp
next
  case (Cons x xs)
  then show ?case by (cases k) auto
qed

lemma vc_set_active_same:
  assumes "g_active_vc s = Some x" and "active (heap s x)"
    and "flags (heap s x) AND VC_FLAG_HASINPUT = 0"
  shows "vc_set_active x (g_active_vc_index s) s = s"
proof -
  have "flags (heap s x) AND NOT VC_FLAG_HASINPUT = flags (heap s x)"
  proof (rule bit_word_eqI)
    fix n
    assume "n < LENGTH(32)"
    have "\<not> bit (flags (heap s x) AND VC_FLAG_HASINPUT) n"
      by (simp only: assms(3) bit_0_eq) simp
    then show "bit (flags (heap s x) AND NOT VC_FLAG_HASINPUT) n = bit (flags (heap s x)) n"
      using \<open>n < LENGTH(32)\<close> by (auto simp: bit_and_iff bit_not_iff)
  qed
  then have d: "(heap s x)\<lparr>active := True\<rparr> = heap s x"
      "(heap s x)\<lparr>flags := flags (heap s x) AND NOT VC_FLAG_HASINPUT\<rparr> = heap s x"
    using assms(2) by (cases "heap s x"; simp)+
  have "vc_set_active x (g_active_vc_index s) s =
        s\<lparr>heap := heap s, g_active_vc := g_active_vc s, g_active_vc_index := g_active_vc_index s\<rparr>"
    using assms(1) by (simp add: vc_set_active_def Let_def d)
  then show ?thesis by simp
qed

lemma set_active_console_active:
  assumes "reg_inv s" and "g_active_vc s = Some x"
  shows "vc_set_active_console (g_active_vc_index s) s =
           Inr (NO_ERROR, mtx_unlock G_VC_LOCK (mtx_lock G_VC_LOCK s))"
proof -
  have k: "unat (g_active_vc_index s) < length (g_vc_list s)"
      "g_vc_list s ! unat (g_active_vc_index s) = x"
    and len: "length (g_vc_list s) < 2 ^ 32"
    and cnt: "g_vc_count s = of_nat (length (g_vc_list s))"
    using assms by (auto simp: reg_inv_def)
  have "unat (g_active_vc_index s) < unat (g_vc_count s)"
    using k(1) len cnt by (simp add: unat_of_nat32)
  then have "\<not> g_vc_count s \<le> g_active_vc_index s" by (simp add: word_le_nat_alt)
  then show ?thesis
    using k assms(2) by (simp add: vc_set_active_console_def entry_at_eq Let_def mtx_lock_def)
qed

lemma set_console_to_active_active:
  assumes "reg_inv s" and "g_active_vc s = Some x"
    and "flags (heap s x) AND VC_FLAG_HASINPUT = 0"
  shows "vc_set_console_to_active (Some x) s =
           (NO_ERROR, vc_device_render x (mtx_unlock G_VC_LOCK (mtx_lock G_VC_LOCK s)))"
proof -
  let ?xs = "g_vc_list s"
  have k: "unat (g_active_vc_index s) < length ?xs" "?xs ! unat (g_active_vc_index s) = x"
    and len: "length ?xs < 2 ^ 32" and dist: "distinct ?xs"
    and cnt: "g_vc_count s = of_nat (length ?xs)"
    and fl: "\<forall>d \<in> set ?xs. active (heap s d) \<longleftrightarrow> g_active_vc s = Some d"
    using assms by (auto simp: reg_inv_def)
  have mem: "x \<in> set ?xs" using k by (metis nth_mem)
  then have act: "active (heap s x)" using fl assms(2) by simp
  have j: "length (takeWhile (\<lambda>y. y \<noteq> x) ?xs) = unat (g_active_vc_index s)"
    using takeWhile_distinct_index [OF dist k(1)] k(2) by simp
  have fd: "find_dev ?xs x 0 = g_active_vc_index s"
    by (simp add: find_dev_eq j)
  have ne: "g_active_vc_index s \<noteq> g_vc_count s"
    using k(1) len cnt by (metis nat_neq_iff unat_of_nat32)
  have same: "vc_set_active x (g_active_vc_index s) s = s"
    by (rule vc_set_active_same [OF assms(2) act assms(3)])
  show ?thesis
    using fd ne same
    by (simp add: vc_set_console_to_active_def Let_def mtx_lock_def vc_set_active_emit)
qed

section \<open>Proofs: the battery poller\<close>

lemma isdigit_value:
  assumes "isdigit c"
  shows "(of_nat (of_char c) - 48 :: 32 word) = of_nat (of_char c - 48)"
  using assms by (simp add: isdigit_def)

lemma atoi_digits_decimal:
  assumes "list_all isdigit ds" and "\<not> isdigit t"
  shows "atoi_digits (ds @ t # junk) (- of_nat v) =
         Some (- of_nat (foldl (\<lambda>v c. 10 * v + (of_char c - 48)) v ds))"
  using assms(1)
proof (induction ds arbitrary: v)
  case Nil
  then show ?case using assms(2) by simp
next
  case (Cons c cs)
  then have d: "isdigit c" and r: "list_all isdigit cs" by simp_all
  have e: "10 * (- of_nat v) - (of_nat (of_char c) - 48 :: 32 word) =
        - of_nat (10 * v + (of_char c - 48))"
    by (simp add: isdigit_value [OF d])
  have "atoi_digits ((c # cs) @ t # junk) (- of_nat v) =
        atoi_digits (cs @ t # junk) (10 * (- of_nat v) - (of_nat (of_char c) - 48))"
    using d by simp
  also have "\<dots> = atoi_digits (cs @ t # junk) (- of_nat (10 * v + (of_char c - 48)))"
    by (simp only: e)
  also have "\<dots> = Some (- of_nat (foldl (\<lambda>v c. 10 * v + (of_char c - 48))
                                   (10 * v + (of_char c - 48)) cs))"
    by (rule Cons.IH [OF r])
  finally show ?case by simp
qed

lemma isdigit_not_space: "isdigit c \<Longrightarrow> \<not> isspace c \<and> c \<noteq> CHR ''-'' \<and> c \<noteq> CHR ''+''"
  by (auto simp: isdigit_def isspace_def)

lemma atoi_decimal:
  assumes "ds \<noteq> []" and "list_all isdigit ds" and "\<not> isdigit t"
  shows "atoi (ds @ t # junk) = Some (of_nat (decimal ds))"
proof -
  from assms(1) obtain c cs where ds: "ds = c # cs" by (cases ds) auto
  with assms(2) have "isdigit c" by simp
  then have ns: "\<not> isspace c" "c \<noteq> CHR ''-''" "c \<noteq> CHR ''+''"
    using isdigit_not_space by blast+
  have "atoi_digits (ds @ t # junk) (- of_nat 0) =
        Some (- of_nat (foldl (\<lambda>v c. 10 * v + (of_char c - 48)) 0 ds))"
    by (rule atoi_digits_decimal [OF assms(2,3)])
  then have "atoi_digits (c # cs @ t # junk) 0 = Some (- of_nat (decimal ds))"
    by (simp add: ds decimal_def)
  then show ?thesis using ns by (simp add: atoi_def ds)
qed

lemma sint_of_nat32:
  assumes "n < 2 ^ 31"
  shows "sint (of_nat n :: 32 word) = int n"
proof -
  have "- (2 ^ 31) \<le> int n" "int n < 2 ^ 31" using assms by simp_all
  then have "signed_take_bit 31 (int n) = int n"
    by (simp add: signed_take_bit_int_eq_self)
  then show ?thesis by (simp add: signed_of_nat)
qed

lemmas battery_eval =
  battery_parse_def atoi_def isspace_def isdigit_def store_read_def stale_str_def decimal_def

text \<open>The accumulator of \<^verbatim>\<open>atoi\<close> wraps at 32 bits, and a read that delivers no
  terminator leaves the bytes of the earlier read behind the new ones: the digits run on
  into them.\<close>

lemma atoi_wraps: "atoi (''99999999999'' @ [CHR 0x00]) = Some 1215752191"
  by (simp add: battery_eval)

lemma battery_poll_unterminated:
  "vc_battery_poll (PollRead ''c42'') stale_str info =
     Polled (''c420'' @ [CHR 0x00] @ ''xxxxxxxxxxx'') \<lparr>state = CHARGING, pct = 420\<rparr>"
  by (simp add: battery_eval)

text \<open>
  Claim C8. With \<open>c # rest\<close> the array \<^verbatim>\<open>str\<close> as the read left it, the poller classifies
  by the first character: \<open>e\<close> gives the state error with percentage -1; \<open>c\<close> gives the
  state charging with the percentage that \<^verbatim>\<open>atoi\<close> reads from the rest; every other first
  character gives the state not-charging with the percentage that \<^verbatim>\<open>atoi\<close> reads from
  the whole array. Where the digits are followed by a character that is no digit (the
  terminator of the string read), the percentage is the number that the digits denote:
  after \<open>c\<close> for charging, from the start for not-charging. It is that number as a 32-bit
  \<^verbatim>\<open>int\<close>, hence the number itself below \<open>2 ^ 31\<close>.
\<close>

theorem battery_poll_classifies:
  assumes "store_read data str = c # rest"
  shows
   "(c = CHR ''e'' \<longrightarrow>
       vc_battery_poll (PollRead data) str info =
         Polled (c # rest) \<lparr>state = ERROR, pct = - 1\<rparr>) \<and>
    (c = CHR ''c'' \<longrightarrow>
       vc_battery_poll (PollRead data) str info =
         (case atoi rest of
            None \<Rightarrow> ReadsPastStr
          | Some n \<Rightarrow> Polled (c # rest) \<lparr>state = CHARGING, pct = n\<rparr>)) \<and>
    (c \<noteq> CHR ''e'' \<and> c \<noteq> CHR ''c'' \<longrightarrow>
       vc_battery_poll (PollRead data) str info =
         (case atoi (c # rest) of
            None \<Rightarrow> ReadsPastStr
          | Some n \<Rightarrow> Polled (c # rest) \<lparr>state = NOT_CHARGING, pct = n\<rparr>)) \<and>
    (\<forall>ds t junk.
       c = CHR ''c'' \<and> rest = ds @ t # junk \<and> ds \<noteq> [] \<and> list_all isdigit ds \<and> \<not> isdigit t \<longrightarrow>
       vc_battery_poll (PollRead data) str info =
         Polled (c # rest) \<lparr>state = CHARGING, pct = of_nat (decimal ds)\<rparr>) \<and>
    (\<forall>ds t junk.
       c # rest = ds @ t # junk \<and> ds \<noteq> [] \<and> list_all isdigit ds \<and> \<not> isdigit t \<longrightarrow>
       vc_battery_poll (PollRead data) str info =
         Polled (c # rest) \<lparr>state = NOT_CHARGING, pct = of_nat (decimal ds)\<rparr>) \<and>
    (\<forall>ds. decimal ds < 2 ^ 31 \<longrightarrow> sint (of_nat (decimal ds) :: 32 word) = int (decimal ds))"
proof (intro conjI allI impI)
  assume "c = CHR ''e''"
  then show "vc_battery_poll (PollRead data) str info =
         Polled (c # rest) \<lparr>state = ERROR, pct = - 1\<rparr>"
    using assms by (simp add: battery_parse_def)
next
  assume "c = CHR ''c''"
  then show "vc_battery_poll (PollRead data) str info =
         (case atoi rest of
            None \<Rightarrow> ReadsPastStr
          | Some n \<Rightarrow> Polled (c # rest) \<lparr>state = CHARGING, pct = n\<rparr>)"
    using assms by (simp add: battery_parse_def split: option.splits)
next
  assume "c \<noteq> CHR ''e'' \<and> c \<noteq> CHR ''c''"
  then show "vc_battery_poll (PollRead data) str info =
         (case atoi (c # rest) of
            None \<Rightarrow> ReadsPastStr
          | Some n \<Rightarrow> Polled (c # rest) \<lparr>state = NOT_CHARGING, pct = n\<rparr>)"
    using assms by (simp add: battery_parse_def split: option.splits)
next
  fix ds t junk
  assume a: "c = CHR ''c'' \<and> rest = ds @ t # junk \<and> ds \<noteq> [] \<and> list_all isdigit ds \<and> \<not> isdigit t"
  then have "atoi rest = Some (of_nat (decimal ds))" by (simp add: atoi_decimal)
  then show "vc_battery_poll (PollRead data) str info =
         Polled (c # rest) \<lparr>state = CHARGING, pct = of_nat (decimal ds)\<rparr>"
    using assms a by (simp add: battery_parse_def)
next
  fix ds t junk
  assume a: "c # rest = ds @ t # junk \<and> ds \<noteq> [] \<and> list_all isdigit ds \<and> \<not> isdigit t"
  then have at: "atoi (c # rest) = Some (of_nat (decimal ds))" by (simp add: atoi_decimal)
  from a obtain cs where "ds = c # cs" by (cases ds) auto
  with a have "isdigit c" by simp
  then have "c \<noteq> CHR ''e''" "c \<noteq> CHR ''c''" by (auto simp: isdigit_def)
  then show "vc_battery_poll (PollRead data) str info =
         Polled (c # rest) \<lparr>state = NOT_CHARGING, pct = of_nat (decimal ds)\<rparr>"
    using assms at by (simp add: battery_parse_def)
next
  fix ds
  assume "decimal ds < 2 ^ 31"
  then show "sint (of_nat (decimal ds) :: 32 word) = int (decimal ds)"
    by (rule sint_of_nat32)
qed

theorem battery_poll_classifies_witness:
  "vc_battery_poll (PollRead (''c42'' @ [CHR 0x00])) stale_str \<lparr>state = UNKNOWN, pct = 0\<rparr> =
     Polled (''c42'' @ [CHR 0x00, CHR 0x00] @ ''xxxxxxxxxxx'') \<lparr>state = CHARGING, pct = 42\<rparr> \<and>
   vc_battery_poll (PollRead ''e'') stale_str \<lparr>state = UNKNOWN, pct = 0\<rparr> =
     Polled (''e100'' @ [CHR 0x00] @ ''xxxxxxxxxxx'') \<lparr>state = ERROR, pct = - 1\<rparr> \<and>
   vc_battery_poll (PollRead (''67'' @ [CHR 0x00])) stale_str \<lparr>state = UNKNOWN, pct = 0\<rparr> =
     Polled (''67'' @ [CHR 0x00] @ ''0'' @ [CHR 0x00] @ ''xxxxxxxxxxx'')
       \<lparr>state = NOT_CHARGING, pct = 67\<rparr> \<and>
   sint (42 :: 32 word) = 42 \<and> sint (67 :: 32 word) = 67 \<and> sint (- 1 :: 32 word) = - 1"
proof -
  let ?i = "\<lparr>state = UNKNOWN, pct = 0 :: 32 word\<rparr>"
  have p1: "store_read (''c42'' @ [CHR 0x00]) stale_str =
            CHR ''c'' # (''42'' @ CHR 0x00 # CHR 0x00 # ''xxxxxxxxxxx'')"
    and p2: "store_read ''e'' stale_str = CHR ''e'' # (''100'' @ [CHR 0x00] @ ''xxxxxxxxxxx'')"
    and p3: "store_read (''67'' @ [CHR 0x00]) stale_str =
            CHR ''6'' # (''7'' @ CHR 0x00 # ''0'' @ [CHR 0x00] @ ''xxxxxxxxxxx'')"
    by (simp_all add: store_read_def stale_str_def)
  have d: "list_all isdigit ''42''" "\<not> isdigit (CHR 0x00)" "list_all isdigit ''67''"
      "decimal ''42'' = 42" "decimal ''67'' = 67"
    by (simp_all add: isdigit_def decimal_def)
  from battery_poll_classifies [OF p1, of ?i] d
  have "vc_battery_poll (PollRead (''c42'' @ [CHR 0x00])) stale_str ?i =
          Polled (CHR ''c'' # (''42'' @ CHR 0x00 # CHR 0x00 # ''xxxxxxxxxxx''))
            \<lparr>state = CHARGING, pct = of_nat (decimal ''42'')\<rparr>"
    by blast
  then have r1: "vc_battery_poll (PollRead (''c42'' @ [CHR 0x00])) stale_str ?i =
     Polled (''c42'' @ [CHR 0x00, CHR 0x00] @ ''xxxxxxxxxxx'') \<lparr>state = CHARGING, pct = 42\<rparr>"
    by (simp add: d)
  from battery_poll_classifies [OF p2, of ?i]
  have r2: "vc_battery_poll (PollRead ''e'') stale_str ?i =
     Polled (''e100'' @ [CHR 0x00] @ ''xxxxxxxxxxx'') \<lparr>state = ERROR, pct = - 1\<rparr>"
    by simp
  have "CHR ''6'' # (''7'' @ CHR 0x00 # ''0'' @ [CHR 0x00] @ ''xxxxxxxxxxx'') =
        ''67'' @ CHR 0x00 # (''0'' @ [CHR 0x00] @ ''xxxxxxxxxxx'')"
    by simp
  with battery_poll_classifies [OF p3, of ?i] d
  have "vc_battery_poll (PollRead (''67'' @ [CHR 0x00])) stale_str ?i =
          Polled (CHR ''6'' # (''7'' @ CHR 0x00 # ''0'' @ [CHR 0x00] @ ''xxxxxxxxxxx''))
            \<lparr>state = NOT_CHARGING, pct = of_nat (decimal ''67'')\<rparr>"
    by (metis list.distinct(1))
  then have r3: "vc_battery_poll (PollRead (''67'' @ [CHR 0x00])) stale_str ?i =
     Polled (''67'' @ [CHR 0x00] @ ''0'' @ [CHR 0x00] @ ''xxxxxxxxxxx'')
       \<lparr>state = NOT_CHARGING, pct = 67\<rparr>"
    by (simp add: d)
  from r1 r2 r3 show ?thesis by simp
qed

end
